theory Spec2Isabelle
  imports Main "HOL-Library.Word" "HOL-Library.AList"
begin

section \<open>Values of the program\<close>

text \<open>
  A Go byte slice is a list of 8-bit words. Go's \<open>int\<close> and \<open>int64\<close> arguments and
  \<open>math/big\<close> integers are modelled as \<open>int\<close>; the arithmetic of \<open>genAffinityGroups\<close> on
  its \<open>int64\<close> arguments is \<open>hashSize * 8\<close> and the loop counter only, which stay far below
  \<open>2 ^ 63\<close> for every \<open>hashSize\<close> whose byte slice can be allocated at all.
\<close>

type_synonym bytes = "8 word list"

datatype error =
    errNodeExists
  | errNodeNotFound string
  | errTupleNotFound
  | panicDivisionByZero
  | panicMakeSliceLen
  | panicIndexOutOfRange
  | panicNilDereference

text \<open>
  \<open>bytes.Compare\<close> of the Go standard library: lexicographic order on byte slices, a proper
  prefix being smaller; the result is \<open>-1\<close>, \<open>0\<close> or \<open>1\<close>.
\<close>

fun bytes_Compare :: "bytes \<Rightarrow> bytes \<Rightarrow> int" where
  "bytes_Compare [] [] = 0"
| "bytes_Compare [] (y # ys) = - 1"
| "bytes_Compare (x # xs) [] = 1"
| "bytes_Compare (x # xs) (y # ys) =
     (if x < y then - 1 else if y < x then 1 else bytes_Compare xs ys)"

text \<open>
  \<open>(*big.Int).Bytes\<close>: the absolute value as a big-endian byte slice without leading zero
  bytes; zero is the empty slice.
\<close>

fun nat_Bytes :: "nat \<Rightarrow> bytes" where
  "nat_Bytes n = (if n = 0 then [] else nat_Bytes (n div 256) @ [word_of_nat (n mod 256)])"

declare nat_Bytes.simps [simp del]

definition big_Bytes :: "int \<Rightarrow> bytes" where
  "big_Bytes x = nat_Bytes (nat \<bar>x\<bar>)"

text \<open>\<open>(*big.Int).Exp\<close> with a nil modulus: \<open>x ** y\<close>, and \<open>1\<close> when \<open>y \<le> 0\<close>.\<close>

definition big_Exp :: "int \<Rightarrow> int \<Rightarrow> int" where
  "big_Exp x y = (if y \<le> 0 then 1 else x ^ nat y)"

text \<open>The number a byte slice stands for, read big-endian as \<open>(*big.Int).SetBytes\<close> does.\<close>

fun bytes_value :: "bytes \<Rightarrow> nat" where
  "bytes_value [] = 0"
| "bytes_value (x # xs) = unat x * 256 ^ length xs + bytes_value xs"

section \<open>Affinity groups\<close>

text \<open>
  Modelled from the spec: the struct \<open>hexatype.Node\<close> is declared outside the repository.
  The code reads \<open>Host()\<close> and writes the fields \<open>Heartbeats\<close>, \<open>LastSeen\<close> and
  \<open>Coordinates\<close>; a node record is the host identifier, the heartbeat counter, the
  last-seen time (the \<open>int64\<close> of \<open>UnixNano\<close>) and an opaque coordinate. The counter is
  incremented with \<open>++\<close>, so it is a machine integer: its type is a parameter of the
  record, and every function below takes it to be an unsigned word whose width \<open>'w\<close> is a
  parameter, so that \<open>++\<close> wraps to 0 at the greatest value. Node records are reached through
  pointers, so they live in a store: an address is an index into the list of allocated
  records, and allocation appends.
\<close>

record ('h, 'c) Node =
  Host :: string
  Heartbeats :: 'h
  LastSeen :: int
  Coordinates :: 'c

type_synonym addr = nat

type_synonym ('w, 'c) heap = "('w word, 'c) Node list"

text \<open>
  The struct \<open>affinityGroup\<close>. The field \<open>id\<close> is named \<open>id_bytes\<close> here; the Go map \<open>m\<close> from
  host names to node pointers is an association list with at most one entry per host.
\<close>

record affinityGroup =
  id_bytes :: bytes
  index :: int
  m :: "(string \<times> addr) list"

type_synonym affinityGroups = "affinityGroup list"

definition newAffinityGroup :: "bytes \<Rightarrow> int \<Rightarrow> affinityGroup" where
  "newAffinityGroup i ix = \<lparr>id_bytes = i, index = ix, m = []\<rparr>"

subsection \<open>Building the groups\<close>

text \<open>
  \<open>genAffinityGroups\<close>: division by a zero \<open>k\<close> panics, \<open>make\<close> panics on a negative length.
  Group \<open>0\<close> gets \<open>hashSize\<close> zero bytes, group \<open>i \<ge> 1\<close> gets \<open>(i * groupSize).Bytes()\<close>.
\<close>

definition genAffinityGroups :: "int \<Rightarrow> int \<Rightarrow> error + affinityGroups" where
  "genAffinityGroups numGroups hashSize =
     (let keyspace = big_Exp 2 (hashSize * 8) in
      if numGroups = 0 then Inl panicDivisionByZero
      else
        let groupSize = keyspace div numGroups in
        if numGroups < 0 then Inl panicMakeSliceLen
        else if hashSize < 0 then Inl panicMakeSliceLen
        else Inr (newAffinityGroup (replicate (nat hashSize) 0) 0 #
                  map (\<lambda>i. newAffinityGroup (big_Bytes (i * groupSize)) i) [1..numGroups - 1]))"

text \<open>Indexing a slice panics outside its range.\<close>

definition at_index :: "'a list \<Rightarrow> nat \<Rightarrow> error + 'a" where
  "at_index xs i = (if i < length xs then Inr (xs ! i) else Inl panicIndexOutOfRange)"

text \<open>
  The boundary of group \<open>i\<close> among the groups built for \<open>numGroups\<close> and \<open>hashSize\<close>; an
  error when building panics or there is no such group.
\<close>

definition boundary :: "int \<Rightarrow> int \<Rightarrow> nat \<Rightarrow> error + bytes" where
  "boundary numGroups hashSize i =
     (case genAffinityGroups numGroups hashSize of
        Inl e \<Rightarrow> Inl e
      | Inr ct \<Rightarrow> (case at_index ct i of Inl e \<Rightarrow> Inl e | Inr g \<Rightarrow> Inr (id_bytes g)))"

subsection \<open>Locating a group\<close>

text \<open>
  \<open>affinityGroups.get\<close>: the label \<open>REPEAT_ON_HALF\<close> is the recursion; \<open>l\<close> is the length of
  the whole list, \<open>arr\<close> the current slice.
\<close>

function get_loop :: "nat \<Rightarrow> affinityGroups \<Rightarrow> bytes \<Rightarrow> error + affinityGroup" where
  "get_loop l arr ident =
     (if length arr div 2 \<noteq> 0 \<and> length arr div 2 \<noteq> l then
        (if bytes_Compare ident (id_bytes (arr ! (length arr div 2))) < 0
         then get_loop l (take (length arr div 2) arr) ident
         else if bytes_Compare ident (id_bytes (arr ! (length arr div 2))) > 0
         then get_loop l (drop (length arr div 2) arr) ident
         else at_index arr (length arr div 2))
      else at_index arr (length arr div 2))"
  by pat_completeness auto
termination
  by (relation "measure (\<lambda>(l, arr, ident). length arr)") auto

declare get_loop.simps [simp del]

definition get :: "affinityGroups \<Rightarrow> bytes \<Rightarrow> error + affinityGroup" where
  "get ct ident = get_loop (length ct) ct ident"

text \<open>Building the groups and locating a hash value among them, one after the other.\<close>

definition locate :: "int \<Rightarrow> int \<Rightarrow> bytes \<Rightarrow> error + affinityGroup" where
  "locate numGroups hashSize ident =
     (case genAffinityGroups numGroups hashSize of
        Inl e \<Rightarrow> Inl e
      | Inr ct \<Rightarrow> get ct ident)"

subsection \<open>Membership of one group\<close>

text \<open>
  The operations of one \<open>affinityGroup\<close> act on the store and on the group. Each returns the
  error of the Go function (\<open>None\<close> for \<open>nil\<close>) together with the store and the group as the
  call leaves them. \<open>time.Now().UnixNano()\<close> is the argument \<open>now\<close>. Dereferencing a pointer
  that is not allocated stands for Go's nil dereference. The locks and the log lines have no
  effect on a sequential run and are left out.
\<close>

type_synonym ('w, 'c) groupState = "('w, 'c) heap \<times> affinityGroup"

definition count :: "affinityGroup \<Rightarrow> int" where
  "count grp = int (length (m grp))"

text \<open>\<open>Nodes\<close> copies every record of the map; the model lists them in the order of \<open>m\<close>.\<close>

fun deref_all :: "('w::len, 'c) heap \<Rightarrow> addr list \<Rightarrow> error + ('w::len word, 'c) Node list" where
  "deref_all H [] = Inr []"
| "deref_all H (p # ps) =
     (if p < length H
      then (case deref_all H ps of Inl e \<Rightarrow> Inl e | Inr ns \<Rightarrow> Inr (H ! p # ns))
      else Inl panicNilDereference)"

definition group_Nodes :: "('w::len, 'c) heap \<Rightarrow> affinityGroup \<Rightarrow> error + ('w::len word, 'c) Node list" where
  "group_Nodes H grp = deref_all H (map snd (m grp))"

definition getNode :: "affinityGroup \<Rightarrow> string \<Rightarrow> addr option" where
  "getNode grp hostname = map_of (m grp) hostname"

text \<open>
  \<open>coord.Clone()\<close> yields a fresh coordinate equal to the supplied one; coordinates are values
  here, so the clone is the value itself.
\<close>

definition pingNode ::
  "int \<Rightarrow> string \<Rightarrow> 'c \<Rightarrow> int \<Rightarrow> ('w::len, 'c) groupState \<Rightarrow> error option \<times> ('w::len, 'c) groupState" where
  "pingNode now hostname coord rtt s =
     (case s of (H, grp) \<Rightarrow>
        (case map_of (m grp) hostname of
           None \<Rightarrow> (Some (errNodeNotFound hostname), s)
         | Some node \<Rightarrow>
             if node < length H then
               (None,
                (H[node := (H ! node)\<lparr>Heartbeats := Heartbeats (H ! node) + 1,
                                        LastSeen := now, Coordinates := coord\<rparr>],
                 grp\<lparr>m := AList.update hostname node (m grp)\<rparr>))
             else (Some panicNilDereference, s)))"

definition removeNode :: "string \<Rightarrow> ('w::len, 'c) groupState \<Rightarrow> error option \<times> ('w::len, 'c) groupState" where
  "removeNode hostname s =
     (case s of (H, grp) \<Rightarrow>
        (case map_of (m grp) hostname of
           None \<Rightarrow> (Some (errNodeNotFound hostname), s)
         | Some node \<Rightarrow> (None, (H, grp\<lparr>m := AList.delete hostname (m grp)\<rparr>))))"

definition addNode ::
  "int \<Rightarrow> addr \<Rightarrow> bool \<Rightarrow> ('w::len, 'c) groupState \<Rightarrow> error option \<times> ('w::len, 'c) groupState" where
  "addNode now node force s =
     (case s of (H, grp) \<Rightarrow>
        if \<not> node < length H then (Some panicNilDereference, s)
        else if map_of (m grp) (Host (H ! node)) \<noteq> None \<and> \<not> force
        then (Some errNodeExists, s)
        else
          (None,
           (H[node := (H ! node)\<lparr>LastSeen := now\<rparr>],
            grp\<lparr>m := AList.update (Host (H ! node)) node (m grp)\<rparr>)))"

text \<open>The record stored for a host, read through its pointer.\<close>

definition stored :: "('w::len, 'c) groupState \<Rightarrow> string \<Rightarrow> ('w::len word, 'c) Node option" where
  "stored s hostname =
     (case map_of (m (snd s)) hostname of
        None \<Rightarrow> None
      | Some node \<Rightarrow> if node < length (fst s) then Some (fst s ! node) else None)"

definition member :: "('w::len, 'c) groupState \<Rightarrow> string \<Rightarrow> bool" where
  "member s hostname = (map_of (m (snd s)) hostname \<noteq> None)"

text \<open>Every pointer of the group's map is allocated.\<close>

definition pointers_ok :: "('w::len, 'c) groupState \<Rightarrow> bool" where
  "pointers_ok s = list_all (\<lambda>p. p < length (fst s)) (map snd (m (snd s)))"

subsection \<open>The next group that has nodes\<close>

text \<open>Indexing a slice by an \<open>int\<close> panics for a negative index and past the end.\<close>

definition at_index_int :: "'a list \<Rightarrow> int \<Rightarrow> error + 'a" where
  "at_index_int xs i =
     (if 0 \<le> i \<and> i < int (length xs) then Inr (xs ! nat i) else Inl panicIndexOutOfRange)"

text \<open>
  \<open>affinityGroups.nextClosestGroup\<close>: the label \<open>RETRY\<close> is the recursion, on the current
  group and the nodes read from it. The loop need not end on every input, so the result is
  an option: \<open>None\<close> is a run that never returns. A returned value is a panic, \<open>nil\<close>
  (\<open>Inr None\<close>) or a group.
\<close>

partial_function (option) nextClosestGroup_retry ::
  "('w::len, 'c) heap \<Rightarrow> affinityGroups \<Rightarrow> affinityGroup \<Rightarrow> affinityGroup \<Rightarrow> ('w::len word, 'c) Node list
     \<Rightarrow> (error + affinityGroup option) option" where
  "nextClosestGroup_retry H ct g grp nodes =
     (if length nodes = 0 then
        (case at_index_int ct (if index grp = 0 then int (length ct) - 1 else index grp - 1) of
           Inl e \<Rightarrow> Some (Inl e)
         | Inr grp' \<Rightarrow>
             (case group_Nodes H grp' of
                Inl e \<Rightarrow> Some (Inl e)
              | Inr nodes' \<Rightarrow>
                  if index grp' \<noteq> index g
                  then nextClosestGroup_retry H ct g grp' nodes'
                  else Some (Inr None)))
      else Some (Inr (Some grp)))"

definition nextClosestGroup ::
  "('w::len, 'c) heap \<Rightarrow> affinityGroups \<Rightarrow> affinityGroup \<Rightarrow> (error + affinityGroup option) option" where
  "nextClosestGroup H ct g =
     (case group_Nodes H g of
        Inl e \<Rightarrow> Some (Inl e)
      | Inr nodes \<Rightarrow> nextClosestGroup_retry H ct g g nodes)"

text \<open>
  The positions of a backward walk of \<open>c\<close> steps over \<open>n\<close> groups that starts at \<open>i\<close> and
  goes from position \<open>0\<close> to the last one. This is the walk in the words of the
  specification, to compare with the code.
\<close>

fun walk_back :: "nat \<Rightarrow> nat \<Rightarrow> nat \<Rightarrow> nat list" where
  "walk_back 0 n i = []"
| "walk_back (Suc c) n i = i # walk_back c n (if i = 0 then n - 1 else i - 1)"

definition nextNonEmpty :: "affinityGroups \<Rightarrow> nat \<Rightarrow> affinityGroup option" where
  "nextNonEmpty ct k =
     List.find (\<lambda>g. m g \<noteq> []) (map (\<lambda>i. ct ! i) (walk_back (length ct) (length ct) k))"

text \<open>Every group of the list carries its position as \<open>index\<close>, as the generated groups do.\<close>

definition indexed :: "affinityGroups \<Rightarrow> bool" where
  "indexed ct = (map index ct = map int [0..<length ct])"

definition all_pointers_ok :: "('w::len, 'c) heap \<Rightarrow> affinityGroups \<Rightarrow> bool" where
  "all_pointers_ok H ct = list_all (\<lambda>g. pointers_ok (H, g)) ct"

subsection \<open>Sequences of group operations\<close>

text \<open>
  A caller's sequence of calls on one group. An error is returned to the caller and the next
  call runs on the state the failed call left.
\<close>

datatype 'c groupOp =
    AddNode int addr bool
  | PingNode int string 'c int
  | RemoveNode string

fun applyOp :: "'c groupOp \<Rightarrow> ('w::len, 'c) groupState \<Rightarrow> ('w::len, 'c) groupState" where
  "applyOp (AddNode now node force) s = snd (addNode now node force s)"
| "applyOp (PingNode now h c rtt) s = snd (pingNode now h c rtt s)"
| "applyOp (RemoveNode h) s = snd (removeNode h s)"

text \<open>The states a sequence runs through, the first one included.\<close>

fun states :: "'c groupOp list \<Rightarrow> ('w::len, 'c) groupState \<Rightarrow> ('w::len, 'c) groupState list" where
  "states [] s = [s]"
| "states (x # xs) s = s # states xs (applyOp x s)"

definition heartbeat :: "('w::len, 'c) groupState \<Rightarrow> string \<Rightarrow> 'w word option" where
  "heartbeat s h = map_option Heartbeats (stored s h)"

text \<open>A forced \<open>addNode\<close> whose node record names host \<open>h\<close>: it replaces the record of \<open>h\<close>.\<close>

fun replaces :: "string \<Rightarrow> 'c groupOp \<Rightarrow> ('w::len, 'c) groupState \<Rightarrow> bool" where
  "replaces h (AddNode now node force) s =
     (force \<and> node < length (fst s) \<and> Host (fst s ! node) = h)"
| "replaces h (PingNode now h' c rtt) s = False"
| "replaces h (RemoveNode h') s = False"

text \<open>
  A \<open>pingNode\<close> that reaches the record of host \<open>h\<close> while its counter has the greatest
  value of its width: the increment wraps the counter to 0.
\<close>

fun wraps :: "string \<Rightarrow> 'c groupOp \<Rightarrow> ('w::len, 'c) groupState \<Rightarrow> bool" where
  "wraps h (PingNode now h' c rtt) s =
     (map_of (m (snd s)) h' \<noteq> None \<and> map_of (m (snd s)) h' = map_of (m (snd s)) h \<and>
      heartbeat s h = Some (- 1))"
| "wraps h (AddNode now node force) s = False"
| "wraps h (RemoveNode h') s = False"

section \<open>The tuple directory\<close>

text \<open>
  Modelled from the spec: the type \<open>InmemTuples\<close> and its methods are not among the source
  files; only a test of an older interface (\<open>Add\<close>, \<open>Del\<close>, \<open>Get\<close>, \<open>ExpireHost\<close>) and the
  calls made by \<open>localGroup\<close> are. The directory maps a content key to the set of hosts
  serving it. Here it is an association list with one entry per key, the hosts of a key
  kept as a list. A \<open>TupleHost\<close> is a byte slice: \<open>Snapshot\<close> appends it to a \<open>[][]byte\<close>.
\<close>

type_synonym TupleHost = bytes

type_synonym InmemTuples = "(bytes \<times> TupleHost list) list"

text \<open>Modelled from the spec: the host set of a key, empty for a key without entry.\<close>

definition hosts_of :: "InmemTuples \<Rightarrow> bytes \<Rightarrow> TupleHost list" where
  "hosts_of d key = (case map_of d key of None \<Rightarrow> [] | Some hs \<Rightarrow> hs)"

text \<open>
  Modelled from the spec: \<open>insert\<close> adds the host to the key's host set; it does nothing,
  and returns no error, when the host is already there.
\<close>

definition tuples_Insert :: "bytes \<Rightarrow> TupleHost \<Rightarrow> InmemTuples \<Rightarrow> error option \<times> InmemTuples" where
  "tuples_Insert key host d =
     (if host \<in> set (hosts_of d key) then (None, d)
      else (None, AList.update key (hosts_of d key @ [host]) d))"

text \<open>
  Modelled from the spec: \<open>delete\<close> removes the host from the key's set; it does nothing
  when the host is absent. A key whose set becomes empty keeps an empty entry.
\<close>

definition tuples_Delete :: "bytes \<Rightarrow> TupleHost \<Rightarrow> InmemTuples \<Rightarrow> error option \<times> InmemTuples" where
  "tuples_Delete key host d =
     (if host \<in> set (hosts_of d key)
      then (None, AList.update key (removeAll host (hosts_of d key)) d)
      else (None, d))"

text \<open>Modelled from the spec: \<open>get\<close> returns the hosts of a key, not-found if it has none.\<close>

definition tuples_Get :: "bytes \<Rightarrow> InmemTuples \<Rightarrow> error + TupleHost list" where
  "tuples_Get key d = (if hosts_of d key = [] then Inl errTupleNotFound else Inr (hosts_of d key))"

text \<open>Modelled from the spec: \<open>count\<close> is the number of keys with at least one host.\<close>

definition tuples_Count :: "InmemTuples \<Rightarrow> int" where
  "tuples_Count d = int (length (filter (\<lambda>e. snd e \<noteq> []) d))"

text \<open>
  Modelled from the spec: \<open>iterate\<close> visits every (key, host set) pair once and stops early
  when the visitor returns false. The order is that of the association list.
\<close>

fun tuples_Iter ::
  "InmemTuples \<Rightarrow> (bytes \<Rightarrow> TupleHost list \<Rightarrow> 's \<Rightarrow> bool \<times> 's) \<Rightarrow> 's \<Rightarrow> 's" where
  "tuples_Iter [] visit s = s"
| "tuples_Iter ((key, hosts) # d) visit s =
     (case visit key hosts s of (continue, s') \<Rightarrow>
        if continue then tuples_Iter d visit s' else s')"

text \<open>
  Modelled from the spec: \<open>expireHost\<close> scans every key, removes the host from its set
  wherever present, and returns whether any removal occurred.
\<close>

definition tuples_ExpireHost :: "TupleHost \<Rightarrow> InmemTuples \<Rightarrow> bool \<times> InmemTuples" where
  "tuples_ExpireHost host d =
     (list_ex (\<lambda>e. host \<in> set (snd e)) d, map (\<lambda>e. (fst e, removeAll host (snd e))) d)"

text \<open>The directory has one entry per key.\<close>

definition one_entry_per_key :: "InmemTuples \<Rightarrow> bool" where
  "one_entry_per_key d = distinct (map fst d)"

section \<open>The local group\<close>

text \<open>
  The struct \<open>localGroup\<close>. \<open>hashFunc\<close> yields a fresh hash; what the code does with one is
  to write bytes into it and read the digest, so the field is the function from the bytes
  written to the digest.
\<close>

record localGroup =
  idx :: int
  tuples :: InmemTuples
  groups :: affinityGroups
  hashFunc :: "bytes \<Rightarrow> bytes"

text \<open>
  Modelled from the spec: the methods \<open>ID\<close> and \<open>String\<close> of \<open>TupleHost\<close> are not among the
  source files. \<open>ID\<close> hashes the host value with the hash it is given; \<open>String\<close> is the name
  under which a group lists the host, and is a parameter \<open>str\<close> of the functions that use it.
\<close>

definition TupleHost_ID :: "(bytes \<Rightarrow> bytes) \<Rightarrow> TupleHost \<Rightarrow> bytes" where
  "TupleHost_ID h tuple = h tuple"

text \<open>
  \<open>localGroup.Lookup\<close>: the loop over the tuples appends the pointer of every host that its
  group lists. A panic of \<open>get\<close> ends the call.
\<close>

fun Lookup_loop ::
  "(TupleHost \<Rightarrow> string) \<Rightarrow> localGroup \<Rightarrow> TupleHost list \<Rightarrow> addr list \<Rightarrow> error + addr list" where
  "Lookup_loop str lrpc [] nodes = Inr nodes"
| "Lookup_loop str lrpc (tuple # rest) nodes =
     (case get (groups lrpc) (TupleHost_ID (hashFunc lrpc) tuple) of
        Inl e \<Rightarrow> Inl e
      | Inr tg \<Rightarrow>
          (case getNode tg (str tuple) of
             Some node \<Rightarrow> Lookup_loop str lrpc rest (nodes @ [node])
           | None \<Rightarrow> Lookup_loop str lrpc rest nodes))"

definition Lookup ::
  "(TupleHost \<Rightarrow> string) \<Rightarrow> localGroup \<Rightarrow> bytes \<Rightarrow> error + addr list" where
  "Lookup str lrpc key =
     (case tuples_Get key (tuples lrpc) of
        Inl e \<Rightarrow> Inl e
      | Inr ts \<Rightarrow> Lookup_loop str lrpc ts [])"

text \<open>
  The pointer a tuple host resolves to: the entry for the host's name in the group that its
  hashed value belongs to, if that group lists it.
\<close>

definition resolve :: "(TupleHost \<Rightarrow> string) \<Rightarrow> localGroup \<Rightarrow> TupleHost \<Rightarrow> addr option" where
  "resolve str lrpc tuple =
     (case get (groups lrpc) (TupleHost_ID (hashFunc lrpc) tuple) of
        Inl e \<Rightarrow> None
      | Inr tg \<Rightarrow> getNode tg (str tuple))"

subsection \<open>Snapshots\<close>

definition nodeCount :: "affinityGroups \<Rightarrow> int" where
  "nodeCount ct = foldl (\<lambda>c g. c + count g) 0 ct"

text \<open>
  \<open>affinityGroups.iterNodes\<close>: for every group, read its nodes and call \<open>f\<close> on each until \<open>f\<close>
  returns false. The visitor works on a state of its own, and the store that \<open>Nodes\<close> reads is
  part of that state (\<open>heap_of\<close>), since the visitor may allocate.
\<close>

fun iterNodes_group :: "('w::len word, 'c) Node list \<Rightarrow> (('w::len word, 'c) Node \<Rightarrow> 's \<Rightarrow> bool \<times> 's) \<Rightarrow> 's \<Rightarrow> bool \<times> 's" where
  "iterNodes_group [] f s = (True, s)"
| "iterNodes_group (node # nodes) f s =
     (case f node s of (continue, s') \<Rightarrow>
        if \<not> continue then (False, s') else iterNodes_group nodes f s')"

fun iterNodes ::
  "('s \<Rightarrow> ('w::len, 'c) heap) \<Rightarrow> affinityGroups \<Rightarrow> (('w::len word, 'c) Node \<Rightarrow> 's \<Rightarrow> bool \<times> 's) \<Rightarrow> 's \<Rightarrow> error option \<times> 's" where
  "iterNodes heap_of [] f s = (None, s)"
| "iterNodes heap_of (grp # ct) f s =
     (case group_Nodes (heap_of s) grp of
        Inl e \<Rightarrow> (Some e, s)
      | Inr nodes \<Rightarrow>
          (case iterNodes_group nodes f s of (continue, s') \<Rightarrow>
             if \<not> continue then (None, s') else iterNodes heap_of ct f s'))"

text \<open>
  The structs \<open>Tuple\<close> and \<open>Snapshot\<close>. The snapshot holds pointers to node records. Its
  tuples are pointers to structs that \<open>Snapshot\<close> allocates and nothing else refers to, so
  they are values here; keys and hosts are byte values, no function of the sources writes
  into the bytes of a key or a host.
\<close>

record Tuple =
  Key :: bytes
  Hosts :: "bytes list"

record Snapshot =
  Tuples :: "Tuple list"
  Nodes :: "addr list"

text \<open>
  \<open>localGroup.Snapshot\<close>. The capacities passed to \<open>make\<close> (\<open>Count\<close>, \<open>nodeCount\<close>) do not show
  in the result. The first visitor copies the hosts of a key one by one; the second takes
  the address of its parameter, a fresh copy of the node record.
\<close>

definition Snapshot :: "('w::len, 'c) heap \<Rightarrow> localGroup \<Rightarrow> error + (('w::len, 'c) heap \<times> Snapshot)" where
  "Snapshot H lrpc =
     (let snapshot = \<lparr>Tuples = [], Nodes = []\<rparr>;
          snapshot = tuples_Iter (tuples lrpc)
            (\<lambda>key hosts snap.
               (True, snap\<lparr>Tuples := Tuples snap @
                  [\<lparr>Key = key, Hosts = foldl (\<lambda>hs h. hs @ [h]) [] hosts\<rparr>]\<rparr>))
            snapshot
      in case iterNodes fst (groups lrpc)
           (\<lambda>node s. (True, (fst s @ [node], (snd s)\<lparr>Nodes := Nodes (snd s) @ [length (fst s)]\<rparr>)))
           (H, snapshot) of
           (Some e, s) \<Rightarrow> Inl e
         | (None, s) \<Rightarrow> Inr s)"

text \<open>What a holder of the snapshot reads from it: its tuples and the records its pointers lead to.\<close>

definition snapshot_value :: "('w::len, 'c) heap \<Rightarrow> Snapshot \<Rightarrow> Tuple list \<times> ('w::len word, 'c) Node list" where
  "snapshot_value H snap = (Tuples snap, map (\<lambda>p. H ! p) (Nodes snap))"

text \<open>
  The tuples held by a directory and the node records held by the groups of a list, read
  through the store.
\<close>

definition live_tuples :: "InmemTuples \<Rightarrow> Tuple list" where
  "live_tuples d = map (\<lambda>e. \<lparr>Key = fst e, Hosts = snd e\<rparr>) d"

definition live_records :: "('w::len, 'c) heap \<Rightarrow> affinityGroups \<Rightarrow> ('w::len word, 'c) Node list" where
  "live_records H ct = concat (map (\<lambda>g. map (\<lambda>e. H ! snd e) (m g)) ct)"

subsection \<open>Calls on the live system\<close>

text \<open>
  The mutating calls on the live system: \<open>insert\<close> and \<open>delete\<close> of the tuple directory as
  the specification has them (\<open>localGroup.Insert\<close> and \<open>localGroup.Delete\<close> pass their
  arguments on to the directory), and the membership operations on the group at a position
  of \<open>groups\<close>. A position outside the list names no group, and such a call does nothing.
\<close>

datatype 'c sysOp =
    TupleInsert bytes TupleHost
  | TupleDelete bytes TupleHost
  | GroupOp nat "'c groupOp"

fun applySys :: "'c sysOp \<Rightarrow> ('w::len, 'c) heap \<times> localGroup \<Rightarrow> ('w::len, 'c) heap \<times> localGroup" where
  "applySys (TupleInsert key host) s =
     (fst s, (snd s)\<lparr>tuples := snd (tuples_Insert key host (tuples (snd s)))\<rparr>)"
| "applySys (TupleDelete key host) s =
     (fst s, (snd s)\<lparr>tuples := snd (tuples_Delete key host (tuples (snd s)))\<rparr>)"
| "applySys (GroupOp i x) s =
     (if i < length (groups (snd s))
      then (fst (applyOp x (fst s, groups (snd s) ! i)),
            (snd s)\<lparr>groups := (groups (snd s))[i := snd (applyOp x (fst s, groups (snd s) ! i))]\<rparr>)
      else s)"

fun applySysAll :: "'c sysOp list \<Rightarrow> ('w::len, 'c) heap \<times> localGroup \<Rightarrow> ('w::len, 'c) heap \<times> localGroup" where
  "applySysAll [] s = s"
| "applySysAll (x # xs) s = applySysAll xs (applySys x s)"

text \<open>An \<open>addNode\<close> that is handed a node pointer of the snapshot.\<close>

fun adds_from :: "Snapshot \<Rightarrow> 'c sysOp \<Rightarrow> bool" where
  "adds_from snap (GroupOp i (AddNode now node force)) = (node \<in> set (Nodes snap))"
| "adds_from snap (GroupOp i (PingNode now h c rtt)) = False"
| "adds_from snap (GroupOp i (RemoveNode h)) = False"
| "adds_from snap (TupleInsert key host) = False"
| "adds_from snap (TupleDelete key host) = False"

text \<open>No group of the live system holds a pointer of the snapshot.\<close>

definition apart :: "Snapshot \<Rightarrow> ('w::len, 'c) heap \<times> localGroup \<Rightarrow> bool" where
  "apart snap s =
     list_all (\<lambda>g. list_all (\<lambda>e. snd e \<notin> set (Nodes snap)) (m g)) (groups (snd s))"

section \<open>Example values\<close>

definition node_A :: "(32 word, nat) Node" where
  "node_A = \<lparr>Host = ''A'', Heartbeats = 3, LastSeen = 10, Coordinates = 0\<rparr>"

definition node_A' :: "(32 word, nat) Node" where
  "node_A' = \<lparr>Host = ''A'', Heartbeats = 0, LastSeen = 0, Coordinates = 5\<rparr>"

text \<open>A record of host \<open>A\<close> whose 32-bit counter has its greatest value.\<close>

definition node_max :: "(32 word, nat) Node" where
  "node_max = \<lparr>Host = ''A'', Heartbeats = 4294967295, LastSeen = 10, Coordinates = 0\<rparr>"

definition group0 :: affinityGroup where
  "group0 = newAffinityGroup [0] 0"

definition group_A :: affinityGroup where
  "group_A = \<lparr>id_bytes = [0], index = 0, m = [(''A'', 0)]\<rparr>"

definition groups3 :: affinityGroups where
  "groups3 =
     [\<lparr>id_bytes = [0], index = 0, m = []\<rparr>,
      \<lparr>id_bytes = [85], index = 1, m = []\<rparr>,
      \<lparr>id_bytes = [170], index = 2, m = [(''A'', 0)]\<rparr>]"

text \<open>The directory of the specification's example: \<open>k1\<close> served by \<open>A\<close>, \<open>k2\<close> by \<open>A\<close> and \<open>B\<close>.\<close>

definition dir_example :: InmemTuples where
  "dir_example =
     snd (tuples_Insert [107, 50] [66] (snd (tuples_Insert [107, 50] [65]
       (snd (tuples_Insert [107, 49] [65] [])))))"

definition lrpc_example :: localGroup where
  "lrpc_example =
     \<lparr>idx = 0, tuples = dir_example,
      groups = [\<lparr>id_bytes = [0], index = 0, m = [(''A'', 0)]\<rparr>,
                \<lparr>id_bytes = [128], index = 1, m = []\<rparr>],
      hashFunc = (\<lambda>b. b)\<rparr>"

definition str_example :: "TupleHost \<Rightarrow> string" where
  "str_example t = (if t = [65] then ''A'' else ''B'')"

definition snapshot_example :: Snapshot where
  "snapshot_example =
     \<lparr>Tuples = [\<lparr>Key = [107, 49], Hosts = [[65]]\<rparr>, \<lparr>Key = [107, 50], Hosts = [[65], [66]]\<rparr>],
      Nodes = [1]\<rparr>"

definition calls_example :: "nat sysOp list" where
  "calls_example =
     [GroupOp 0 (PingNode 20 ''A'' 7 1), TupleInsert [107, 51] [66], TupleDelete [107, 50] [65],
      GroupOp 1 (AddNode 21 0 True), GroupOp 0 (RemoveNode ''A'')]"

text \<open>A digest of 32 bytes, as of the default hash, that begins with the bytes 1 and 100.\<close>

definition digest_example :: bytes where
  "digest_example = 1 # 100 # replicate 30 0"

text \<open>
  The test \<open>Test_InmemTuples\<close> of the repository, run on the directory above: \<open>Add\<close>, \<open>Del\<close>,
  \<open>Get\<close> and \<open>ExpireHost\<close> of the test are \<open>insert\<close>, \<open>delete\<close>, the host set and
  \<open>expireHost\<close>. The keys are the bytes of \<open>filetuple0\<close> to \<open>filetuple9\<close>. \<open>NewHost\<close> is not
  among the sources; the hosts of the test differ in their port only, and a host is the two
  bytes of its port here.
\<close>

definition filetuple :: "nat \<Rightarrow> bytes" where
  "filetuple i = [102, 105, 108, 101, 116, 117, 112, 108, 101, 48 + word_of_nat i]"

definition NewHost :: "nat \<Rightarrow> TupleHost" where
  "NewHost port = [word_of_nat (port div 256), word_of_nat (port mod 256)]"

definition add_all :: "nat list \<Rightarrow> (nat \<Rightarrow> TupleHost) \<Rightarrow> InmemTuples \<Rightarrow> InmemTuples" where
  "add_all is host d = foldl (\<lambda>d i. snd (tuples_Insert (filetuple i) (host i) d)) d is"

definition del_all :: "nat list \<Rightarrow> (nat \<Rightarrow> TupleHost) \<Rightarrow> InmemTuples \<Rightarrow> InmemTuples" where
  "del_all is host d = foldl (\<lambda>d i. snd (tuples_Delete (filetuple i) (host i) d)) d is"

definition test_dir_added :: InmemTuples where
  "test_dir_added =
     snd (tuples_Insert (filetuple 0) (NewHost 21234)
       (add_all [0, 1, 2, 3, 4] (\<lambda>i. NewHost 21234) (add_all [0, 1, 2, 3, 4, 5, 6, 7, 8, 9] (\<lambda>i. NewHost (1234 + i)) [])))"

definition test_dir_deleted :: InmemTuples where
  "test_dir_deleted = del_all [0, 1, 2, 3, 4] (\<lambda>i. NewHost 21234) test_dir_added"

definition test_dir_readded :: InmemTuples where
  "test_dir_readded = add_all [0, 1, 2, 3, 4] (\<lambda>i. NewHost 11234) test_dir_deleted"

definition Test_InmemTuples :: bool where
  "Test_InmemTuples =
     (list_all (\<lambda>i. hosts_of test_dir_added (filetuple i) \<noteq> []) [0, 1, 2, 3, 4, 5, 6, 7, 8, 9] \<and>
      list_all (\<lambda>i. length (hosts_of test_dir_added (filetuple i)) = 2) [0, 1, 2, 3, 4] \<and>
      list_all (\<lambda>i. length (hosts_of test_dir_deleted (filetuple i)) = 1) [0, 1, 2, 3, 4, 5, 6, 7, 8, 9] \<and>
      fst (tuples_ExpireHost (NewHost 11234) test_dir_readded) \<and>
      list_all (\<lambda>i. length (hosts_of (snd (tuples_ExpireHost (NewHost 11234) test_dir_readded))
         (filetuple i)) = 1) [0, 1, 2, 3, 4, 5, 6, 7, 8, 9])"

section \<open>Byte slices and numbers\<close>

lemma bytes_value_snoc: "bytes_value (xs @ [b]) = bytes_value xs * 256 + unat b"
  by (induction xs) (auto simp: algebra_simps)

lemma bytes_value_nat_Bytes: "bytes_value (nat_Bytes n) = n"
proof (induction n rule: nat_Bytes.induct)
  case (1 n)
  show ?case
  proof (cases "n = 0")
    case True
    then show ?thesis by (simp add: nat_Bytes.simps)
  next
    case False
    have "unat (word_of_nat (n mod 256) :: 8 word) = n mod 256"
      by (simp add: unat_of_nat)
    then show ?thesis using False "1.IH" [OF False]
      by (subst nat_Bytes.simps) (simp add: bytes_value_snoc)
  qed
qed

lemma nat_Bytes_upper: "n < 256 ^ length (nat_Bytes n)"
proof (induction n rule: nat_Bytes.induct)
  case (1 n)
  show ?case
  proof (cases "n = 0")
    case True
    then show ?thesis by simp
  next
    case False
    have "n div 256 < 256 ^ length (nat_Bytes (n div 256))" using "1.IH" [OF False] .
    then have "n < 256 * 256 ^ length (nat_Bytes (n div 256))"
      by (simp add: div_less_iff_less_mult)
    then show ?thesis using False by (subst nat_Bytes.simps) (simp add: mult.commute)
  qed
qed

lemma nat_Bytes_lower: "0 < n \<Longrightarrow> 256 ^ (length (nat_Bytes n) - 1) \<le> n"
proof (induction n rule: nat_Bytes.induct)
  case (1 n)
  then have n: "n \<noteq> 0" by simp
  have len: "length (nat_Bytes n) = Suc (length (nat_Bytes (n div 256)))"
    using n by (subst nat_Bytes.simps) simp
  show ?case
  proof (cases "n div 256 = 0")
    case True
    then have "nat_Bytes (n div 256) = []" by (simp add: nat_Bytes.simps)
    then show ?thesis using len "1.prems" by simp
  next
    case False
    then have pos: "0 < n div 256" by simp
    have l1: "0 < length (nat_Bytes (n div 256))"
      using False by (subst nat_Bytes.simps) simp
    have "256 ^ (length (nat_Bytes (n div 256)) - 1) \<le> n div 256"
      using "1.IH" [OF n pos] .
    then have "256 * 256 ^ (length (nat_Bytes (n div 256)) - 1) \<le> 256 * (n div 256)"
      by simp
    also have "\<dots> \<le> n" by simp
    finally have le: "256 * 256 ^ (length (nat_Bytes (n div 256)) - 1) \<le> n" .
    obtain j where j: "length (nat_Bytes (n div 256)) = Suc j"
      using l1 by (cases "length (nat_Bytes (n div 256))") auto
    show ?thesis using le unfolding len j by simp
  qed
qed

lemma length_nat_Bytes:
  assumes "256 ^ (k - 1) \<le> n" and "n < 256 ^ k" and "0 < k"
  shows "length (nat_Bytes n) = k"
proof -
  have pos: "0 < n" using assms(1) by (metis less_le_trans zero_less_numeral zero_less_power)
  have "(256::nat) ^ (length (nat_Bytes n) - 1) < 256 ^ k"
    using nat_Bytes_lower [OF pos] assms(2) by (rule le_less_trans)
  then have a: "length (nat_Bytes n) - 1 < k"
    by (rule power_less_imp_less_exp [rotated]) simp
  have "(256::nat) ^ (k - 1) < 256 ^ length (nat_Bytes n)"
    using assms(1) nat_Bytes_upper [of n] by (rule le_less_trans)
  then have b: "k - 1 < length (nat_Bytes n)"
    by (rule power_less_imp_less_exp [rotated]) simp
  from a b assms(3) show ?thesis by simp
qed

lemma bytes_value_bound: "bytes_value xs < 256 ^ length xs"
proof (induction xs)
  case Nil
  then show ?case by simp
next
  case (Cons x xs)
  have "unat x < 256" using unsigned_less [of x, where 'a = nat] by simp
  then have "unat x * 256 ^ length xs + bytes_value xs < (unat x + 1) * 256 ^ length xs"
    using Cons by simp
  also have "\<dots> \<le> 256 * 256 ^ length xs"
    using \<open>unat x < 256\<close> by (intro mult_le_mono1) simp
  finally show ?case by simp
qed

lemma bytes_Compare_value:
  "length xs = length ys \<Longrightarrow>
   (bytes_Compare xs ys < 0) = (bytes_value xs < bytes_value ys) \<and>
   (bytes_Compare xs ys = 0) = (bytes_value xs = bytes_value ys) \<and>
   (bytes_Compare xs ys > 0) = (bytes_value xs > bytes_value ys)"
proof (induction xs ys rule: list_induct2)
  case Nil
  then show ?case by simp
next
  case (Cons x xs y ys)
  let ?P = "256 ^ length ys :: nat"
  have bxs: "bytes_value xs < ?P" using bytes_value_bound [of xs] Cons.hyps by simp
  have bys: "bytes_value ys < ?P" using bytes_value_bound [of ys] by simp
  have step: "a * ?P + u < b * ?P + v" if "a < b" "u < ?P" for a b u v :: nat
  proof -
    have "a * ?P + u < (a + 1) * ?P" using that(2) by simp
    also have "\<dots> \<le> b * ?P" using that(1) by (intro mult_le_mono1) simp
    finally show ?thesis by simp
  qed
  consider "x < y" | "y < x" | "x = y" by (metis linorder_less_linear)
  then show ?case
  proof cases
    case 1
    then have "unat x < unat y" by (simp add: word_less_nat_alt)
    then have "bytes_value (x # xs) < bytes_value (y # ys)"
      using step [of "unat x" "unat y" "bytes_value xs" "bytes_value ys"] bxs Cons.hyps by simp
    then show ?thesis using 1 by simp
  next
    case 2
    then have "unat y < unat x" by (simp add: word_less_nat_alt)
    then have "bytes_value (y # ys) < bytes_value (x # xs)"
      using step [of "unat y" "unat x" "bytes_value ys" "bytes_value xs"] bys Cons.hyps by simp
    then show ?thesis using 2 by auto
  next
    case 3
    then show ?thesis using Cons.IH Cons.hyps by simp
  qed
qed

lemma bytes_value_zeros: "bytes_value (replicate n 0) = 0"
  by (induction n) auto

section \<open>Properties of one group\<close>

lemma pointers_ok_lookup:
  "pointers_ok (H, g) \<Longrightarrow> map_of (m g) h = Some p \<Longrightarrow> p < length H"
  by (auto simp: pointers_ok_def list_all_iff dest!: map_of_SomeD)

lemma set_AList_update: "set (AList.update k v al) \<subseteq> insert (k, v) (set al)"
  by (induction al) auto

lemma set_AList_delete: "set (AList.delete k al) \<subseteq> set al"
  by (induction al) auto

lemma pointers_ok_update:
  "pointers_ok (H, g) \<Longrightarrow> p < length H \<Longrightarrow>
   pointers_ok (H[q := r], g\<lparr>m := AList.update h p (m g)\<rparr>)"
  using set_AList_update [of h p "m g"] by (auto simp: pointers_ok_def list_all_iff)

lemma pointers_ok_addNode: "pointers_ok s \<Longrightarrow> pointers_ok (snd (addNode now node force s))"
  by (cases s) (auto simp: addNode_def intro: pointers_ok_update)

lemma pointers_ok_pingNode: "pointers_ok s \<Longrightarrow> pointers_ok (snd (pingNode now h c rtt s))"
  by (cases s) (auto simp: pingNode_def split: option.splits intro: pointers_ok_update)

lemma pointers_ok_removeNode: "pointers_ok s \<Longrightarrow> pointers_ok (snd (removeNode h s))"
  using set_AList_delete [of h "m (snd s)"]
  by (cases s) (auto simp: removeNode_def pointers_ok_def list_all_iff split: option.splits)

lemma stored_addNode:
  "node < length H \<Longrightarrow> fst (addNode now node force (H, g)) = None \<Longrightarrow>
   stored (snd (addNode now node force (H, g))) (Host (H ! node)) = Some ((H ! node)\<lparr>LastSeen := now\<rparr>)"
  by (auto simp: addNode_def stored_def update_conv split: if_splits)

lemma getNode_addNode:
  "node < length H \<Longrightarrow> fst (addNode now node force (H, g)) = None \<Longrightarrow>
   getNode (snd (snd (addNode now node force (H, g)))) (Host (H ! node)) = Some node"
  by (auto simp: addNode_def getNode_def update_conv split: if_splits)

lemma addNode_heap:
  "fst (snd (addNode now node force (H, g))) = H \<or>
   fst (snd (addNode now node force (H, g))) = H[node := (H ! node)\<lparr>LastSeen := now\<rparr>]"
  by (auto simp: addNode_def)

lemma addNode_heap_Host:
  "length (fst (snd (addNode now node force (H, g)))) = length H \<and>
   (p < length H \<longrightarrow> Host (fst (snd (addNode now node force (H, g))) ! p) = Host (H ! p))"
  by (auto simp: addNode_def nth_list_update)

text \<open>
  Claim C5. For a node record that is allocated: \<open>addNode\<close> without force fails with
  \<open>errNodeExists\<close> exactly when the node's host is already a member and succeeds otherwise;
  with force it always succeeds; every successful call stores the supplied pointer under the
  host, and the stored record is the supplied one with \<open>LastSeen\<close> set to the time of the
  call; after a second forced add for the same host the stored record carries the time of
  the second call.
\<close>

theorem addNode_contract:
  assumes "node < length H"
  shows "((fst (addNode now node False (H, g)) = Some errNodeExists) = member (H, g) (Host (H ! node))) \<and>
     ((fst (addNode now node False (H, g)) = None) = (\<not> member (H, g) (Host (H ! node)))) \<and>
     fst (addNode now node True (H, g)) = None \<and>
     (fst (addNode now node force (H, g)) = None \<longrightarrow>
        getNode (snd (snd (addNode now node force (H, g)))) (Host (H ! node)) = Some node \<and>
        stored (snd (addNode now node force (H, g))) (Host (H ! node)) =
          Some ((H ! node)\<lparr>LastSeen := now\<rparr>)) \<and>
     (node' < length H \<and> Host (H ! node') = Host (H ! node) \<longrightarrow>
        fst (addNode now' node' True (snd (addNode now node True (H, g)))) = None \<and>
        map_option LastSeen
          (stored (snd (addNode now' node' True (snd (addNode now node True (H, g)))))
             (Host (H ! node))) = Some now')"
proof -
  have a: "(fst (addNode now node False (H, g)) = Some errNodeExists) = member (H, g) (Host (H ! node))"
    using assms by (auto simp: addNode_def member_def)
  have b: "(fst (addNode now node False (H, g)) = None) = (\<not> member (H, g) (Host (H ! node)))"
    using assms by (auto simp: addNode_def member_def)
  have c: "fst (addNode now node True (H, g)) = None"
    using assms by (simp add: addNode_def)
  have d: "fst (addNode now node force (H, g)) = None \<longrightarrow>
        getNode (snd (snd (addNode now node force (H, g)))) (Host (H ! node)) = Some node \<and>
        stored (snd (addNode now node force (H, g))) (Host (H ! node)) =
          Some ((H ! node)\<lparr>LastSeen := now\<rparr>)"
    using assms by (simp add: stored_addNode getNode_addNode)
  have e: "fst (addNode now' node' True (snd (addNode now node True (H, g)))) = None \<and>
        map_option LastSeen
          (stored (snd (addNode now' node' True (snd (addNode now node True (H, g)))))
             (Host (H ! node))) = Some now'"
    if n': "node' < length H" and h: "Host (H ! node') = Host (H ! node)"
  proof -
    obtain H1 g1 where s1: "snd (addNode now node True (H, g)) = (H1, g1)"
      by (cases "snd (addNode now node True (H, g))")
    have l1: "length H1 = length H" and h1: "Host (H1 ! node') = Host (H ! node)"
      using addNode_heap_Host [of now node True H g node'] s1 n' h by auto
    have ok: "fst (addNode now' node' True (H1, g1)) = None"
      using n' l1 by (simp add: addNode_def)
    have "stored (snd (addNode now' node' True (H1, g1))) (Host (H1 ! node')) =
        Some ((H1 ! node')\<lparr>LastSeen := now'\<rparr>)"
      using n' l1 ok by (simp add: stored_addNode)
    then show ?thesis using ok s1 h1 by simp
  qed
  from a b c d e show ?thesis by blast
qed

theorem addNode_contract_witness:
  "(0::nat) < length [node_A, node_A'] \<and>
   fst (addNode 20 0 False ([node_A, node_A'], group0)) = None \<and>
   fst (addNode 30 0 False (snd (addNode 20 0 False ([node_A, node_A'], group0)))) = Some errNodeExists \<and>
   stored (snd (addNode 20 0 False ([node_A, node_A'], group0))) ''A'' = Some (node_A\<lparr>LastSeen := 20\<rparr>) \<and>
   map_option LastSeen
     (stored (snd (addNode 30 1 True (snd (addNode 20 0 True ([node_A, node_A'], group0))))) ''A'') = Some 30"
  using addNode_contract [of 0 "[node_A, node_A']" 20 group0 False 1 30]
  by (simp add: addNode_def member_def stored_def node_A_def node_A'_def group0_def newAffinityGroup_def)

lemma stored_member:
  "pointers_ok s \<Longrightarrow> member s h \<Longrightarrow> \<exists>r. stored s h = Some r"
  by (cases s) (auto simp: stored_def member_def dest: pointers_ok_lookup)

lemma stored_pingNode:
  "stored s h = Some r \<Longrightarrow>
   fst (pingNode now h c rtt s) = None \<and>
   stored (snd (pingNode now h c rtt s)) h =
     Some (r\<lparr>Heartbeats := Heartbeats r + 1, LastSeen := now, Coordinates := c\<rparr>)"
  by (cases s) (auto simp: pingNode_def stored_def update_conv split: option.splits if_splits)

lemma word_inc_less: "x \<noteq> - 1 \<Longrightarrow> x < x + 1" for x :: "'a::len word"
  using inc_less_eq_self_iff_eq [of x] by (simp add: not_le)

text \<open>
  Claim C6 fails where the counter has its greatest value: the host is a member with a 32-bit
  counter of 4294967295, \<open>pingNode\<close> succeeds, and the counter of the stored record is 0,
  which is below what it was.
\<close>

theorem pingNode_wraps_counterexample:
  "pointers_ok ([node_max], group_A) \<and> member ([node_max], group_A) ''A'' \<and>
   stored ([node_max], group_A) ''A'' =
     Some \<lparr>Host = ''A'', Heartbeats = 4294967295, LastSeen = 10, Coordinates = 0\<rparr> \<and>
   fst (pingNode 20 ''A'' 7 1 ([node_max], group_A)) = None \<and>
   stored (snd (pingNode 20 ''A'' 7 1 ([node_max], group_A))) ''A'' =
     Some \<lparr>Host = ''A'', Heartbeats = 0, LastSeen = 20, Coordinates = 7\<rparr> \<and>
   (0 :: 32 word) < 4294967295"
  by (simp add: pingNode_def member_def stored_def pointers_ok_def node_max_def group_A_def)

text \<open>
  Claim C6, amended. In a group whose pointers are allocated, \<open>pingNode\<close> fails with the
  not-found error exactly when the host is not a member. For a member it returns no error
  and the stored record becomes the old one with \<open>Heartbeats\<close> increased by one in the
  arithmetic of the counter's width, which is 0 after the greatest value, \<open>LastSeen\<close> set to
  the time of the call and \<open>Coordinates\<close> set to the supplied coordinate. A ping of a
  counter below its greatest value raises the counter strictly; of two pings in a row, the
  clock not going back between them, the second leaves \<open>LastSeen\<close> no smaller. The result
  does not depend on \<open>rtt\<close>.
\<close>

theorem pingNode_contract:
  assumes "pointers_ok s"
  shows "((fst (pingNode now h c rtt s) = Some (errNodeNotFound h)) = (\<not> member s h)) \<and>
     ((fst (pingNode now h c rtt s) = None) = member s h) \<and>
     (member s h \<longrightarrow>
        (\<exists>r. stored s h = Some r \<and>
          stored (snd (pingNode now h c rtt s)) h =
            Some (r\<lparr>Heartbeats := Heartbeats r + 1, LastSeen := now, Coordinates := c\<rparr>) \<and>
          (Heartbeats r \<noteq> - 1 \<longrightarrow>
             Heartbeats r < Heartbeats r + 1 \<and>
             unat (Heartbeats r + 1) = unat (Heartbeats r) + 1) \<and>
          (Heartbeats r = - 1 \<longrightarrow> Heartbeats r + 1 = 0))) \<and>
     (member s h \<and> now \<le> now' \<longrightarrow>
        (\<exists>r r1 r2. stored s h = Some r \<and>
          stored (snd (pingNode now h c rtt s)) h = Some r1 \<and>
          stored (snd (pingNode now' h c' rtt' (snd (pingNode now h c rtt s)))) h = Some r2 \<and>
          (Heartbeats r \<noteq> - 1 \<longrightarrow> Heartbeats r < Heartbeats r1) \<and>
          (Heartbeats r1 \<noteq> - 1 \<longrightarrow> Heartbeats r1 < Heartbeats r2) \<and>
          LastSeen r1 \<le> LastSeen r2)) \<and>
     pingNode now h c rtt s = pingNode now h c rtt' s"
proof -
  obtain H g where s: "s = (H, g)" by (cases s)
  have a: "(fst (pingNode now h c rtt s) = Some (errNodeNotFound h)) = (\<not> member s h)"
    using assms unfolding s
    by (auto simp: pingNode_def member_def split: option.splits dest: pointers_ok_lookup)
  have b: "(fst (pingNode now h c rtt s) = None) = member s h"
    using assms unfolding s
    by (auto simp: pingNode_def member_def split: option.splits dest: pointers_ok_lookup)
  have inc: "(x \<noteq> - 1 \<longrightarrow> x < x + 1 \<and> unat (x + 1) = unat x + 1) \<and> (x = - 1 \<longrightarrow> x + 1 = 0)"
    for x :: "'a word"
  proof -
    have "unat (x + 1) = unat x + 1" if "x \<noteq> - 1"
    proof -
      have "1 + x \<noteq> 0" using that max_word_wrap [of x] by (auto simp: add.commute)
      then show ?thesis using unatSuc [of x] by (simp add: add.commute)
    qed
    then show ?thesis using word_inc_less [of x] by simp
  qed
  have c: "\<exists>r. stored s h = Some r \<and>
          stored (snd (pingNode now h c rtt s)) h =
            Some (r\<lparr>Heartbeats := Heartbeats r + 1, LastSeen := now, Coordinates := c\<rparr>) \<and>
          (Heartbeats r \<noteq> - 1 \<longrightarrow>
             Heartbeats r < Heartbeats r + 1 \<and>
             unat (Heartbeats r + 1) = unat (Heartbeats r) + 1) \<and>
          (Heartbeats r = - 1 \<longrightarrow> Heartbeats r + 1 = 0)"
    if mem: "member s h"
  proof -
    obtain r where r: "stored s h = Some r"
      using stored_member [OF assms mem] by blast
    show ?thesis using r stored_pingNode [OF r, of now c rtt] inc [of "Heartbeats r"] by simp
  qed
  have d: "\<exists>r r1 r2. stored s h = Some r \<and>
          stored (snd (pingNode now h c rtt s)) h = Some r1 \<and>
          stored (snd (pingNode now' h c' rtt' (snd (pingNode now h c rtt s)))) h = Some r2 \<and>
          (Heartbeats r \<noteq> - 1 \<longrightarrow> Heartbeats r < Heartbeats r1) \<and>
          (Heartbeats r1 \<noteq> - 1 \<longrightarrow> Heartbeats r1 < Heartbeats r2) \<and>
          LastSeen r1 \<le> LastSeen r2"
    if mem: "member s h" and le: "now \<le> now'"
  proof -
    obtain r where r: "stored s h = Some r"
      using stored_member [OF assms mem] by blast
    let ?r1 = "r\<lparr>Heartbeats := Heartbeats r + 1, LastSeen := now, Coordinates := c\<rparr>"
    let ?r2 = "?r1\<lparr>Heartbeats := Heartbeats ?r1 + 1, LastSeen := now', Coordinates := c'\<rparr>"
    have r1: "stored (snd (pingNode now h c rtt s)) h = Some ?r1"
      using stored_pingNode [OF r] by simp
    have r2: "stored (snd (pingNode now' h c' rtt' (snd (pingNode now h c rtt s)))) h = Some ?r2"
      using stored_pingNode [OF r1] by simp
    have "(Heartbeats r \<noteq> - 1 \<longrightarrow> Heartbeats r < Heartbeats ?r1) \<and>
          (Heartbeats ?r1 \<noteq> - 1 \<longrightarrow> Heartbeats ?r1 < Heartbeats ?r2) \<and>
          LastSeen ?r1 \<le> LastSeen ?r2"
      using le word_inc_less [of "Heartbeats r"] word_inc_less [of "Heartbeats r + 1"] by simp
    then show ?thesis using r r1 r2 by blast
  qed
  have e: "pingNode now h c rtt s = pingNode now h c rtt' s"
    by (simp add: pingNode_def)
  from a b c d e show ?thesis by blast
qed

theorem pingNode_contract_witness:
  "pointers_ok ([node_A, node_A'], group_A) \<and>
   fst (pingNode 20 ''B'' 7 1 ([node_A, node_A'], group_A)) = Some (errNodeNotFound ''B'') \<and>
   fst (pingNode 20 ''A'' 7 1 ([node_A, node_A'], group_A)) = None \<and>
   stored (snd (pingNode 20 ''A'' 7 1 ([node_A, node_A'], group_A))) ''A'' =
     Some \<lparr>Host = ''A'', Heartbeats = 4, LastSeen = 20, Coordinates = 7\<rparr> \<and>
   stored (snd (pingNode 21 ''A'' 8 2 (snd (pingNode 20 ''A'' 7 1 ([node_A, node_A'], group_A))))) ''A'' =
     Some \<lparr>Host = ''A'', Heartbeats = 5, LastSeen = 21, Coordinates = 8\<rparr> \<and>
   (3 :: 32 word) < 4 \<and> (4 :: 32 word) < 5"
  using pingNode_contract [of "([node_A, node_A'], group_A)" 20 "''A''" 7 1 21 8 2]
    pingNode_contract [of "([node_A, node_A'], group_A)" 20 "''B''" 7 1 21 8 2]
  by (simp add: pingNode_def member_def stored_def pointers_ok_def node_A_def node_A'_def group_A_def)

text \<open>
  Claim C10. Whenever \<open>addNode\<close>, \<open>removeNode\<close> or \<open>pingNode\<close> returns an error, the store and
  the group (the membership map and every node record) are as they were before the call.
  \<open>addNode\<close> without force on a member host, and \<open>removeNode\<close> and \<open>pingNode\<close> on an absent
  host, are such calls.
\<close>

theorem group_errors_change_nothing:
  "(fst (addNode now node force s) \<noteq> None \<longrightarrow> snd (addNode now node force s) = s) \<and>
   (fst (removeNode h s) \<noteq> None \<longrightarrow> snd (removeNode h s) = s) \<and>
   (fst (pingNode now h c rtt s) \<noteq> None \<longrightarrow> snd (pingNode now h c rtt s) = s) \<and>
   (node < length (fst s) \<and> member s (Host (fst s ! node)) \<longrightarrow>
      addNode now node False s = (Some errNodeExists, s)) \<and>
   (\<not> member s h \<longrightarrow>
      removeNode h s = (Some (errNodeNotFound h), s) \<and>
      pingNode now h c rtt s = (Some (errNodeNotFound h), s))"
  by (cases s) (auto simp: addNode_def removeNode_def pingNode_def member_def split: option.splits)

theorem group_errors_change_nothing_witness:
  "addNode 20 1 False ([node_A, node_A'], group_A) = (Some errNodeExists, ([node_A, node_A'], group_A)) \<and>
   removeNode ''B'' ([node_A, node_A'], group_A) = (Some (errNodeNotFound ''B''), ([node_A, node_A'], group_A)) \<and>
   pingNode 20 ''B'' 7 1 ([node_A, node_A'], group_A) = (Some (errNodeNotFound ''B''), ([node_A, node_A'], group_A))"
  using group_errors_change_nothing [of 20 1 False "([node_A, node_A'], group_A)" "''B''" 7 1]
  by (simp add: member_def node_A_def node_A'_def group_A_def)

section \<open>The heartbeat counter along a run\<close>

lemma heartbeat_addNode:
  assumes "\<not> replaces h (AddNode now node force) s"
    and "heartbeat s h = Some a"
  shows "heartbeat (snd (addNode now node force s)) h = Some a"
proof -
  obtain H g where s: "s = (H, g)" by (cases s)
  obtain p where p: "map_of (m g) h = Some p" "p < length H" "Heartbeats (H ! p) = a"
    using assms(2) unfolding s heartbeat_def stored_def
    by (auto split: option.splits if_splits)
  show ?thesis
  proof (cases "fst (addNode now node force s) = None")
    case False
    then have "snd (addNode now node force s) = s"
      unfolding s by (auto simp: addNode_def split: if_splits)
    then show ?thesis using assms(2) by simp
  next
    case True
    then have n: "node < length H" and ne: "Host (H ! node) \<noteq> h"
      using assms(1) p unfolding s by (auto simp: addNode_def split: if_splits)
    then show ?thesis using p True unfolding s
      by (auto simp: addNode_def heartbeat_def stored_def update_conv nth_list_update
          split: if_splits)
  qed
qed

lemma heartbeat_pingNode:
  assumes "heartbeat s h = Some a" and "\<not> wraps h (PingNode now h' c rtt) s"
  shows "\<exists>b. heartbeat (snd (pingNode now h' c rtt s)) h = Some b \<and> a \<le> b"
proof -
  obtain H g where s: "s = (H, g)" by (cases s)
  obtain p where p: "map_of (m g) h = Some p" "p < length H" "Heartbeats (H ! p) = a"
    using assms(1) unfolding s heartbeat_def stored_def
    by (auto split: option.splits if_splits)
  show ?thesis
  proof (cases "map_of (m g) h' = Some p")
    case True
    then have "a \<noteq> - 1" using assms unfolding s by (simp add: p)
    then have "a \<le> a + 1" using word_inc_less [of a] by simp
    then show ?thesis using p True unfolding s
      by (auto simp: pingNode_def heartbeat_def stored_def update_conv)
  next
    case False
    then show ?thesis using p unfolding s
      by (auto simp: pingNode_def heartbeat_def stored_def update_conv nth_list_update
          split: option.splits)
  qed
qed

lemma heartbeat_removeNode:
  assumes "heartbeat s h = Some a" and "heartbeat (snd (removeNode h' s)) h = Some b"
  shows "a = b"
  using assms
  by (cases s) (auto simp: removeNode_def heartbeat_def stored_def delete_conv
      split: option.splits if_splits)

lemma heartbeat_step:
  assumes "\<not> replaces h x s" and "\<not> wraps h x s" and "heartbeat s h = Some a"
    and "heartbeat (applyOp x s) h = Some b"
  shows "a \<le> b"
proof (cases x)
  case (AddNode now node force)
  then show ?thesis using assms heartbeat_addNode [of h now node force s a] by simp
next
  case (PingNode now h' c rtt)
  then show ?thesis using assms heartbeat_pingNode [of s h a now h' c rtt] by auto
next
  case (RemoveNode h')
  then show ?thesis using assms heartbeat_removeNode [of s h a h' b] by simp
qed

lemma states_length: "length (states xs s) = Suc (length xs)"
  by (induction xs arbitrary: s) auto

lemma states_0: "states xs s ! 0 = s"
  by (cases xs) auto

lemma states_Suc:
  "k < length xs \<Longrightarrow> states xs s ! Suc k = applyOp (xs ! k) (states xs s ! k)"
proof (induction xs arbitrary: s k)
  case Nil
  then show ?case by simp
next
  case (Cons x xs)
  then show ?case by (cases k) (auto simp: states_0)
qed

lemma pointers_ok_applyOp: "pointers_ok s \<Longrightarrow> pointers_ok (applyOp x s)"
  by (cases x) (auto intro: pointers_ok_addNode pointers_ok_pingNode pointers_ok_removeNode)

lemma pointers_ok_states:
  "pointers_ok s \<Longrightarrow> k \<le> length xs \<Longrightarrow> pointers_ok (states xs s ! k)"
proof (induction k)
  case 0
  then show ?case by (simp add: states_0)
next
  case (Suc k)
  then show ?case by (simp add: states_Suc pointers_ok_applyOp)
qed

lemma heartbeat_member:
  "pointers_ok s \<Longrightarrow> member s h \<Longrightarrow> \<exists>a. heartbeat s h = Some a"
  using stored_member [of s h] by (auto simp: heartbeat_def)

lemma heartbeat_forced_add:
  "node < length (fst t) \<Longrightarrow>
   heartbeat (applyOp (AddNode now node True) t) (Host (fst t ! node)) =
     Some (Heartbeats (fst t ! node))"
  by (cases t) (simp add: addNode_def heartbeat_def stored_def update_conv)

text \<open>
  Claim C7 fails in two ways. A forced \<open>addNode\<close>: host \<open>A\<close> is a member with counter 3; a
  forced \<open>addNode\<close> of another record for \<open>A\<close>, whose counter is 0, succeeds, \<open>A\<close> is still a
  member and its counter is 0. A wrapping \<open>pingNode\<close>: host \<open>A\<close> is a member with the
  greatest 32-bit counter, 4294967295; \<open>pingNode\<close> succeeds, \<open>A\<close> is still a member and its
  counter is 0.
\<close>

theorem heartbeat_force_counterexample:
  "member ([node_A, node_A'], group_A) ''A'' \<and>
   heartbeat ([node_A, node_A'], group_A) ''A'' = Some 3 \<and>
   fst (addNode 30 1 True ([node_A, node_A'], group_A)) = None \<and>
   member (snd (addNode 30 1 True ([node_A, node_A'], group_A))) ''A'' \<and>
   heartbeat (snd (addNode 30 1 True ([node_A, node_A'], group_A))) ''A'' = Some 0 \<and>
   member ([node_max], group_A) ''A'' \<and>
   heartbeat ([node_max], group_A) ''A'' = Some 4294967295 \<and>
   fst (pingNode 20 ''A'' 7 1 ([node_max], group_A)) = None \<and>
   member (snd (pingNode 20 ''A'' 7 1 ([node_max], group_A))) ''A'' \<and>
   heartbeat (snd (pingNode 20 ''A'' 7 1 ([node_max], group_A))) ''A'' = Some 0 \<and>
   (0 :: 32 word) < 3 \<and> (0 :: 32 word) < 4294967295"
  by (simp add: addNode_def pingNode_def member_def heartbeat_def stored_def node_A_def
      node_A'_def node_max_def group_A_def)

text \<open>
  Claim C7, amended. Run any sequence of \<open>addNode\<close>, \<open>pingNode\<close> and \<open>removeNode\<close> calls on a
  group whose pointers are allocated. Between two states of the run, if the host is a
  member in every state from the first to the second, no call in between is a forced
  \<open>addNode\<close> of a record for that host, and no call in between is a \<open>pingNode\<close> that reaches
  the host's record while its counter has the greatest value of its width, then the host's
  heartbeat counter in the second state is at least its counter in the first. A forced
  \<open>addNode\<close> of an allocated record replaces what is stored for the record's host: the
  counter stored for that host is then the counter of the supplied record.
\<close>

theorem heartbeat_monotone:
  assumes ok: "pointers_ok s"
    and ij: "i \<le> j" "j \<le> length xs"
    and mem: "\<forall>k. i \<le> k \<and> k \<le> j \<longrightarrow> member (states xs s ! k) h"
    and nor: "\<forall>k. i \<le> k \<and> k < j \<longrightarrow>
      \<not> replaces h (xs ! k) (states xs s ! k) \<and> \<not> wraps h (xs ! k) (states xs s ! k)"
  shows "(\<exists>a b. heartbeat (states xs s ! i) h = Some a \<and>
           heartbeat (states xs s ! j) h = Some b \<and> a \<le> b) \<and>
     (node < length (fst t) \<longrightarrow>
        heartbeat (applyOp (AddNode now node True) t) (Host (fst t ! node)) =
          Some (Heartbeats (fst t ! node)))"
proof -
  have "\<exists>a b. heartbeat (states xs s ! i) h = Some a \<and>
           heartbeat (states xs s ! j) h = Some b \<and> a \<le> b"
    using ij mem nor
  proof (induction j)
    case 0
    then have "i = 0" by simp
    then show ?case
      using heartbeat_member [OF pointers_ok_states [OF ok, of 0 xs], of h] 0 by auto
  next
    case (Suc j)
    show ?case
    proof (cases "i = Suc j")
      case True
      then show ?thesis
        using heartbeat_member [OF pointers_ok_states [OF ok, of "Suc j" xs], of h] Suc.prems
        by auto
    next
      case False
      then have le: "i \<le> j" using Suc.prems by simp
      have "\<exists>a b. heartbeat (states xs s ! i) h = Some a \<and>
             heartbeat (states xs s ! j) h = Some b \<and> a \<le> b"
        using Suc.IH le Suc.prems by auto
      then obtain a b where ab: "heartbeat (states xs s ! i) h = Some a"
        "heartbeat (states xs s ! j) h = Some b" "a \<le> b" by blast
      obtain c where c: "heartbeat (states xs s ! Suc j) h = Some c"
        using heartbeat_member [OF pointers_ok_states [OF ok, of "Suc j" xs], of h] Suc.prems le
        by auto
      have st: "states xs s ! Suc j = applyOp (xs ! j) (states xs s ! j)"
        using states_Suc [of j xs s] Suc.prems by simp
      have "\<not> replaces h (xs ! j) (states xs s ! j)" "\<not> wraps h (xs ! j) (states xs s ! j)"
        using Suc.prems le by simp_all
      then have "b \<le> c"
        using heartbeat_step [of h "xs ! j" "states xs s ! j" b c] ab c st by simp
      then show ?thesis using ab c by auto
    qed
  qed
  then show ?thesis using heartbeat_forced_add [of node t now] by simp
qed

theorem heartbeat_monotone_witness:
  "pointers_ok ([node_A, node_A'], group_A) \<and>
   heartbeat (states [PingNode 20 ''A'' 7 1, AddNode 21 1 False, RemoveNode ''B'', PingNode 22 ''A'' 8 1]
      ([node_A, node_A'], group_A) ! 0) ''A'' = Some 3 \<and>
   heartbeat (states [PingNode 20 ''A'' 7 1, AddNode 21 1 False, RemoveNode ''B'', PingNode 22 ''A'' 8 1]
      ([node_A, node_A'], group_A) ! 4) ''A'' = Some 5 \<and>
   (3 :: 32 word) \<le> 5 \<and>
   heartbeat (applyOp (AddNode 30 1 True) ([node_A, node_A'], group_A)) ''A'' = Some 0"
  using heartbeat_monotone [of "([node_A, node_A'], group_A)" 0 4
      "[PingNode 20 ''A'' 7 1, AddNode 21 1 False, RemoveNode ''B'', PingNode 22 ''A'' 8 1]" "''A''"
      1 "([node_A, node_A'], group_A)" 30]
  by (simp add: pingNode_def addNode_def removeNode_def member_def heartbeat_def stored_def
      pointers_ok_def node_A_def node_A'_def group_A_def)

section \<open>The next group that has nodes\<close>

lemma deref_all_ok:
  "list_all (\<lambda>p. p < length H) ps \<Longrightarrow> \<exists>ns. deref_all H ps = Inr ns \<and> length ns = length ps"
  by (induction ps) auto

lemma group_Nodes_ok:
  "pointers_ok (H, g) \<Longrightarrow> \<exists>ns. group_Nodes H g = Inr ns \<and> length ns = length (m g)"
  using deref_all_ok [of H "map snd (m g)"] by (simp add: group_Nodes_def pointers_ok_def)

lemma indexed_nth: "indexed ct \<Longrightarrow> i < length ct \<Longrightarrow> index (ct ! i) = int i"
proof -
  assume a: "indexed ct" and i: "i < length ct"
  have "map index ct ! i = map int [0..<length ct] ! i"
    using a by (simp add: indexed_def)
  then show ?thesis using i by simp
qed

lemma all_pointers_ok_nth:
  "all_pointers_ok H ct \<Longrightarrow> i < length ct \<Longrightarrow> pointers_ok (H, ct ! i)"
  by (simp add: all_pointers_ok_def list_all_length)

lemma pred_mod:
  fixes x n :: nat
  assumes "0 < n"
  shows "(if Suc x mod n = 0 then n - 1 else Suc x mod n - 1) = x mod n"
  using assms by (auto simp: mod_Suc)

lemma walk_not_back:
  fixes k c n :: nat
  assumes "k < n" "0 < c" "c < n"
  shows "(k + c) mod n \<noteq> k"
proof (cases "k + c < n")
  case True
  then show ?thesis using assms by simp
next
  case False
  then have "(k + c) mod n = k + c - n"
    using assms by (simp add: mod_if)
  then show ?thesis using assms False by simp
qed

lemma retry_walk:
  assumes ix: "indexed ct" and ok: "all_pointers_ok H ct" and k: "k < length ct"
  shows "0 < c \<Longrightarrow> c \<le> length ct \<Longrightarrow> i = (k + c) mod length ct \<Longrightarrow>
     group_Nodes H (ct ! i) = Inr nodes \<Longrightarrow>
     nextClosestGroup_retry H ct (ct ! k) (ct ! i) nodes =
       Some (Inr (List.find (\<lambda>g. m g \<noteq> []) (map (\<lambda>i. ct ! i) (walk_back c (length ct) i))))"
proof (induction c arbitrary: i nodes)
  case 0
  then show ?case by simp
next
  case (Suc c)
  let ?n = "length ct"
  let ?j = "if i = 0 then ?n - 1 else i - 1"
  have n: "0 < ?n" using k by (cases ct) auto
  have i: "i < ?n" using Suc.prems n by simp
  have j: "?j = (k + c) mod ?n"
    using pred_mod [OF n, of "k + c"] Suc.prems(3) by (auto split: if_splits)
  have jn: "?j < ?n" using j n by simp
  have len: "length nodes = length (m (ct ! i))"
    using group_Nodes_ok [OF all_pointers_ok_nth [OF ok i]] Suc.prems by auto
  obtain nodes' where nodes': "group_Nodes H (ct ! ?j) = Inr nodes'"
    using group_Nodes_ok [OF all_pointers_ok_nth [OF ok jn]] by blast
  have at: "at_index_int ct (if index (ct ! i) = 0 then int ?n - 1 else index (ct ! i) - 1)
      = Inr (ct ! ?j)"
    using indexed_nth [OF ix i] i n by (auto simp: at_index_int_def nat_diff_distrib)
  show ?case
  proof (cases "m (ct ! i) = []")
    case False
    then show ?thesis using len
      by (subst nextClosestGroup_retry.simps) simp
  next
    case True
    note empty = True
    show ?thesis
    proof (cases "c = 0")
      case True
      then have "?j = k" using j k by simp
      then show ?thesis using empty len at nodes' True
        by (subst nextClosestGroup_retry.simps) simp
    next
      case False
      then have c: "0 < c" "c < ?n" using Suc.prems by simp_all
      have "?j \<noteq> k" using walk_not_back [OF k c] j by simp
      then have ne: "index (ct ! ?j) \<noteq> index (ct ! k)"
        using indexed_nth [OF ix jn] indexed_nth [OF ix k] by simp
      have ih: "nextClosestGroup_retry H ct (ct ! k) (ct ! ?j) nodes' =
          Some (Inr (List.find (\<lambda>g. m g \<noteq> []) (map (\<lambda>i. ct ! i) (walk_back c ?n ?j))))"
        using Suc.IH [of ?j nodes'] c j nodes' by simp
      show ?thesis using empty len at nodes' ne ih
        by (subst nextClosestGroup_retry.simps) simp
    qed
  qed
qed

lemma find_first: "xs \<noteq> [] \<Longrightarrow> P (hd xs) \<Longrightarrow> List.find P xs = Some (hd xs)"
  by (cases xs) auto

lemma walk_back_bound: "i < n \<Longrightarrow> j \<in> set (walk_back c n i) \<Longrightarrow> j < n"
proof (induction c arbitrary: i)
  case 0
  then show ?case by simp
next
  case (Suc c)
  have "(if i = 0 then n - 1 else i - 1) < n" using Suc.prems(1) by auto
  then show ?case using Suc.IH [of "if i = 0 then n - 1 else i - 1"] Suc.prems by auto
qed

text \<open>
  Claim C9. In a list of groups that carry their positions as indices and whose pointers are
  allocated, \<open>nextClosestGroup\<close> called on the group at position \<open>k\<close> returns, and its result
  is the first group with a node on the backward walk \<open>k, k - 1, \<dots>, 0, n - 1, \<dots>, k + 1\<close>,
  or \<open>nil\<close> when the walk finds none. So it returns the start group when that has a node,
  and \<open>nil\<close> when every group is empty.
\<close>

theorem nextClosestGroup_walks_back:
  assumes "indexed ct" and "all_pointers_ok H ct" and "k < length ct"
  shows "nextClosestGroup H ct (ct ! k) = Some (Inr (nextNonEmpty ct k)) \<and>
     (m (ct ! k) \<noteq> [] \<longrightarrow> nextClosestGroup H ct (ct ! k) = Some (Inr (Some (ct ! k)))) \<and>
     ((\<forall>g \<in> set ct. m g = []) \<longrightarrow> nextClosestGroup H ct (ct ! k) = Some (Inr None))"
proof -
  let ?n = "length ct"
  obtain nodes where nodes: "group_Nodes H (ct ! k) = Inr nodes"
    using group_Nodes_ok [OF all_pointers_ok_nth [OF assms(2,3)]] by blast
  have "k = (k + ?n) mod ?n" using assms(3) by simp
  then have main: "nextClosestGroup H ct (ct ! k) = Some (Inr (nextNonEmpty ct k))"
    using retry_walk [OF assms, of ?n k nodes] nodes assms(3)
    by (cases ct) (auto simp: nextClosestGroup_def nextNonEmpty_def)
  have w: "walk_back ?n ?n k = k # walk_back (?n - 1) ?n (if k = 0 then ?n - 1 else k - 1)"
    using assms(3) by (cases ?n) auto
  have first: "nextNonEmpty ct k = Some (ct ! k)" if "m (ct ! k) \<noteq> []"
    using that by (simp add: nextNonEmpty_def w)
  have none: "nextNonEmpty ct k = None" if "\<forall>g \<in> set ct. m g = []"
    using that walk_back_bound [OF assms(3)]
    by (auto simp: nextNonEmpty_def find_None_iff)
  from main first none show ?thesis by simp
qed

theorem nextClosestGroup_walks_back_witness:
  "indexed groups3 \<and> all_pointers_ok [node_A] groups3 \<and>
   nextClosestGroup [node_A] groups3 (groups3 ! 0) = Some (Inr (Some (groups3 ! 2))) \<and>
   nextClosestGroup [node_A] groups3 (groups3 ! 2) = Some (Inr (Some (groups3 ! 2))) \<and>
   nextClosestGroup [node_A] (take 2 groups3) (take 2 groups3 ! 1) = Some (Inr None) \<and>
   nextClosestGroup [node_A] (take 1 groups3) (take 1 groups3 ! 0) = Some (Inr None)"
  using nextClosestGroup_walks_back [of groups3 "[node_A]" 0]
    nextClosestGroup_walks_back [of groups3 "[node_A]" 2]
    nextClosestGroup_walks_back [of "take 2 groups3" "[node_A]" 1]
    nextClosestGroup_walks_back [of "take 1 groups3" "[node_A]" 0]
  by (simp add: indexed_def all_pointers_ok_def pointers_ok_def nextNonEmpty_def groups3_def
      upt_rec [of 0] )

section \<open>The tuple directory\<close>

lemma hosts_of_update:
  "hosts_of (AList.update k v d) k' = (if k' = k then v else hosts_of d k')"
  by (simp add: hosts_of_def update_conv')

lemma hosts_of_Insert:
  "set (hosts_of (snd (tuples_Insert k h d)) k') =
     (if k' = k then insert h (set (hosts_of d k)) else set (hosts_of d k'))"
  by (auto simp: tuples_Insert_def hosts_of_update)

lemma Insert_twice:
  "tuples_Insert k h (snd (tuples_Insert k h d)) = (None, snd (tuples_Insert k h d))"
  by (simp add: tuples_Insert_def hosts_of_update)

lemma one_entry_Insert: "one_entry_per_key d \<Longrightarrow> one_entry_per_key (snd (tuples_Insert k h d))"
  by (simp add: tuples_Insert_def one_entry_per_key_def distinct_update)

lemma one_entry_Delete: "one_entry_per_key d \<Longrightarrow> one_entry_per_key (snd (tuples_Delete k h d))"
  by (simp add: tuples_Delete_def one_entry_per_key_def distinct_update)

lemma one_entry_ExpireHost:
  "one_entry_per_key d \<Longrightarrow> one_entry_per_key (snd (tuples_ExpireHost h d))"
  by (simp add: tuples_ExpireHost_def one_entry_per_key_def comp_def)

lemma hosts_of_ExpireHost:
  "hosts_of (snd (tuples_ExpireHost h d)) k = removeAll h (hosts_of d k)"
  by (induction d) (auto simp: tuples_ExpireHost_def hosts_of_def)

lemma ExpireHost_removed:
  "one_entry_per_key d \<Longrightarrow> fst (tuples_ExpireHost h d) = (\<exists>k. h \<in> set (hosts_of d k))"
proof -
  assume d: "one_entry_per_key d"
  have "(\<exists>e \<in> set d. h \<in> set (snd e)) = (\<exists>k. h \<in> set (hosts_of d k))"
  proof
    assume "\<exists>e \<in> set d. h \<in> set (snd e)"
    then obtain k hs where e: "(k, hs) \<in> set d" "h \<in> set hs" by auto
    then have "map_of d k = Some hs" using d by (simp add: one_entry_per_key_def)
    then have "h \<in> set (hosts_of d k)" using e by (simp add: hosts_of_def)
    then show "\<exists>k. h \<in> set (hosts_of d k)" by blast
  next
    assume "\<exists>k. h \<in> set (hosts_of d k)"
    then obtain k where k: "h \<in> set (hosts_of d k)" by blast
    then obtain hs where "map_of d k = Some hs" "h \<in> set hs"
      by (cases "map_of d k") (auto simp: hosts_of_def)
    then show "\<exists>e \<in> set d. h \<in> set (snd e)" by (force dest: map_of_SomeD)
  qed
  then show ?thesis by (simp add: tuples_ExpireHost_def list_ex_iff)
qed

text \<open>
  Claim C3. Inserting a (key, host) pair a second time returns no error and leaves the
  directory as the first insert left it, with the host in the key's set once; deleting a
  host that is not in the key's set leaves the directory unchanged; \<open>expireHost\<close> removes the
  host from the set of every key, leaves the other hosts, and in a directory with one entry
  per key it returns true exactly when some key had the host.
\<close>

theorem tuple_set_semantics:
  "tuples_Insert k h (snd (tuples_Insert k h d)) = (None, snd (tuples_Insert k h d)) \<and>
   set (hosts_of (snd (tuples_Insert k h d)) k) = insert h (set (hosts_of d k)) \<and>
   (h \<notin> set (hosts_of d k) \<longrightarrow> tuples_Delete k h d = (None, d)) \<and>
   (\<forall>k'. set (hosts_of (snd (tuples_ExpireHost h d)) k') = set (hosts_of d k') - {h}) \<and>
   (one_entry_per_key d \<longrightarrow>
      fst (tuples_ExpireHost h d) = (\<exists>k'. h \<in> set (hosts_of d k')))"
  using ExpireHost_removed [of d h]
  by (auto simp: Insert_twice hosts_of_Insert hosts_of_ExpireHost tuples_Delete_def)

theorem tuple_set_semantics_witness:
  "one_entry_per_key dir_example \<and> [66] \<notin> set (hosts_of dir_example [107, 49]) \<and>
   tuples_Insert [107, 50] [65] dir_example = (None, dir_example) \<and>
   tuples_Delete [107, 49] [66] dir_example = (None, dir_example) \<and>
   tuples_ExpireHost [65] dir_example = (True, [([107, 49], []), ([107, 50], [[66]])])"
  using tuple_set_semantics [of "[107, 50]" "[65]" "snd (tuples_Insert [107, 50] [65] (snd (tuples_Insert [107, 49] [65] []))) " ]
   tuple_set_semantics [of "[107, 49]" "[66]" dir_example]
   tuple_set_semantics [of "[107, 49]" "[65]" dir_example]
  by (simp add: dir_example_def tuples_Insert_def tuples_Delete_def tuples_ExpireHost_def hosts_of_def one_entry_per_key_def)

subsection \<open>The test of the repository\<close>

lemma test_dir_added_value:
  "test_dir_added =
     [(filetuple 0, [NewHost 1234, NewHost 21234]), (filetuple 1, [NewHost 1235, NewHost 21234]),
      (filetuple 2, [NewHost 1236, NewHost 21234]), (filetuple 3, [NewHost 1237, NewHost 21234]),
      (filetuple 4, [NewHost 1238, NewHost 21234]), (filetuple 5, [NewHost 1239]),
      (filetuple 6, [NewHost 1240]), (filetuple 7, [NewHost 1241]),
      (filetuple 8, [NewHost 1242]), (filetuple 9, [NewHost 1243])]"
  by (simp add: test_dir_added_def add_all_def filetuple_def NewHost_def tuples_Insert_def
      hosts_of_def)

lemma test_dir_deleted_value:
  "test_dir_deleted =
     [(filetuple 0, [NewHost 1234]), (filetuple 1, [NewHost 1235]),
      (filetuple 2, [NewHost 1236]), (filetuple 3, [NewHost 1237]),
      (filetuple 4, [NewHost 1238]), (filetuple 5, [NewHost 1239]),
      (filetuple 6, [NewHost 1240]), (filetuple 7, [NewHost 1241]),
      (filetuple 8, [NewHost 1242]), (filetuple 9, [NewHost 1243])]"
  by (simp add: test_dir_deleted_def test_dir_added_value del_all_def filetuple_def NewHost_def
      tuples_Delete_def hosts_of_def)

lemma test_dir_readded_value:
  "test_dir_readded =
     [(filetuple 0, [NewHost 1234, NewHost 11234]), (filetuple 1, [NewHost 1235, NewHost 11234]),
      (filetuple 2, [NewHost 1236, NewHost 11234]), (filetuple 3, [NewHost 1237, NewHost 11234]),
      (filetuple 4, [NewHost 1238, NewHost 11234]), (filetuple 5, [NewHost 1239]),
      (filetuple 6, [NewHost 1240]), (filetuple 7, [NewHost 1241]),
      (filetuple 8, [NewHost 1242]), (filetuple 9, [NewHost 1243])]"
  by (simp add: test_dir_readded_def test_dir_deleted_value add_all_def filetuple_def
      NewHost_def tuples_Insert_def hosts_of_def)

text \<open>Every check of the repository's test holds on the modelled directory.\<close>

lemma Test_InmemTuples_passes: "Test_InmemTuples"
  by (simp add: Test_InmemTuples_def test_dir_added_value test_dir_deleted_value
      test_dir_readded_value tuples_ExpireHost_def filetuple_def NewHost_def hosts_of_def)

section \<open>Lookup through the local group\<close>

lemma get_loop_total:
  "arr \<noteq> [] \<Longrightarrow> \<exists>g \<in> set arr. get_loop l arr v = Inr g"
proof (induction l arr v rule: get_loop.induct)
  case (1 l arr ident)
  let ?i = "length arr div 2"
  have i: "?i < length arr" using "1.prems" by (cases arr) auto
  show ?case
  proof (cases "?i \<noteq> 0 \<and> ?i \<noteq> l")
    case False
    then show ?thesis using i
      by (subst get_loop.simps) (auto simp: at_index_def)
  next
    case True
    note half = True
    show ?thesis
    proof (cases "bytes_Compare ident (id_bytes (arr ! ?i)) < 0")
      case True
      have "take ?i arr \<noteq> []" using half "1.prems" by auto
      then obtain g where "g \<in> set (take ?i arr)" "get_loop l (take ?i arr) ident = Inr g"
        using "1.IH"(1) [OF half True] by blast
      then show ?thesis using half True
        by (subst get_loop.simps) (auto dest: in_set_takeD)
    next
      case False
      note nless = False
      show ?thesis
      proof (cases "bytes_Compare ident (id_bytes (arr ! ?i)) > 0")
        case True
        have "drop ?i arr \<noteq> []" using i by auto
        then obtain g where "g \<in> set (drop ?i arr)" "get_loop l (drop ?i arr) ident = Inr g"
          using "1.IH"(2) [OF half nless True] by blast
        then show ?thesis using half nless True
          by (subst get_loop.simps) (auto dest: in_set_dropD)
      next
        case False
        then show ?thesis using half nless i
          by (subst get_loop.simps) (auto simp: at_index_def)
      qed
    qed
  qed
qed

lemma get_total: "ct \<noteq> [] \<Longrightarrow> \<exists>g \<in> set ct. get ct v = Inr g"
  by (simp add: get_def get_loop_total)

lemma Lookup_loop_resolve:
  "groups lrpc \<noteq> [] \<Longrightarrow>
   Lookup_loop str lrpc ts acc = Inr (acc @ List.map_filter (resolve str lrpc) ts)"
proof (induction ts arbitrary: acc)
  case Nil
  then show ?case by (simp add: List.map_filter_simps)
next
  case (Cons t ts)
  obtain tg where tg: "get (groups lrpc) (TupleHost_ID (hashFunc lrpc) t) = Inr tg"
    using get_total [OF Cons.prems] by blast
  show ?case using tg Cons.IH [OF Cons.prems]
    by (cases "getNode tg (str t)") (simp_all add: resolve_def List.map_filter_simps)
qed

lemma set_map_filter: "set (List.map_filter f xs) = {y. \<exists>x \<in> set xs. f x = Some y}"
  by (induction xs) (auto simp: List.map_filter_simps split: option.splits)

lemma length_map_filter: "length (List.map_filter f xs) \<le> length xs"
  by (induction xs) (auto simp: List.map_filter_simps split: option.splits)

text \<open>
  Claim C4. With a non-empty group list and a key for which the tuple directory returns
  hosts, \<open>Lookup\<close> returns no error. Its result holds, in the order of the hosts, the node
  pointer of every host that the group of its hashed value lists under the host's name, and
  nothing else; hosts that their group does not list are left out, so the result is no
  longer than the host list and is empty when no host is listed.
\<close>

theorem Lookup_resolves:
  assumes "groups lrpc \<noteq> []" and "tuples_Get key (tuples lrpc) = Inr ts"
  shows "Lookup str lrpc key = Inr (List.map_filter (resolve str lrpc) ts) \<and>
     (\<forall>tuple \<in> set ts. \<exists>tg \<in> set (groups lrpc).
        get (groups lrpc) (TupleHost_ID (hashFunc lrpc) tuple) = Inr tg \<and>
        resolve str lrpc tuple = map_of (m tg) (str tuple)) \<and>
     set (List.map_filter (resolve str lrpc) ts) =
       {node. \<exists>tuple \<in> set ts. resolve str lrpc tuple = Some node} \<and>
     length (List.map_filter (resolve str lrpc) ts) \<le> length ts \<and>
     ((\<forall>tuple \<in> set ts. resolve str lrpc tuple = None) \<longrightarrow> Lookup str lrpc key = Inr [])"
proof -
  have a: "Lookup str lrpc key = Inr (List.map_filter (resolve str lrpc) ts)"
    using assms Lookup_loop_resolve [of lrpc str ts "[]"] by (simp add: Lookup_def)
  have b: "\<exists>tg \<in> set (groups lrpc).
        get (groups lrpc) (TupleHost_ID (hashFunc lrpc) tuple) = Inr tg \<and>
        resolve str lrpc tuple = map_of (m tg) (str tuple)" for tuple
    using get_total [OF assms(1), of "TupleHost_ID (hashFunc lrpc) tuple"]
    by (auto simp: resolve_def getNode_def)
  have c: "List.map_filter (resolve str lrpc) ts = []"
    if "\<forall>tuple \<in> set ts. resolve str lrpc tuple = None"
    using that set_map_filter [of "resolve str lrpc" ts] by auto
  show ?thesis using a b c set_map_filter [of "resolve str lrpc" ts]
      length_map_filter [of "resolve str lrpc" ts] by auto
qed

theorem Lookup_resolves_witness:
  "groups lrpc_example \<noteq> [] \<and>
   tuples_Get [107, 50] (tuples lrpc_example) = Inr [[65], [66]] \<and>
   Lookup str_example lrpc_example [107, 50] = Inr [0] \<and>
   resolve str_example lrpc_example [66] = None \<and>
   Lookup str_example (lrpc_example\<lparr>groups := map (\<lambda>g. g\<lparr>m := []\<rparr>) (groups lrpc_example)\<rparr>) [107, 50] = Inr []"
  using Lookup_resolves [of lrpc_example "[107, 50]" "[[65], [66]]" str_example]
    Lookup_resolves [of "lrpc_example\<lparr>groups := map (\<lambda>g. g\<lparr>m := []\<rparr>) (groups lrpc_example)\<rparr>"
      "[107, 50]" "[[65], [66]]" str_example]
  by (simp add: lrpc_example_def dir_example_def tuples_Get_def hosts_of_def tuples_Insert_def
      resolve_def get_def get_loop.simps at_index_def getNode_def str_example_def
      TupleHost_ID_def List.map_filter_simps)

section \<open>Snapshots\<close>

lemma copy_hosts: "foldl (\<lambda>hs h. hs @ [h]) acc hosts = acc @ hosts"
  by (induction hosts arbitrary: acc) auto

lemma tuples_Iter_copy:
  "tuples_Iter d
     (\<lambda>key hosts snap.
        (True, snap\<lparr>Tuples := Tuples snap @
           [\<lparr>Key = key, Hosts = foldl (\<lambda>hs h. hs @ [h]) [] hosts\<rparr>]\<rparr>)) snap0
   = snap0\<lparr>Tuples := Tuples snap0 @ live_tuples d\<rparr>"
  by (induction d arbitrary: snap0) (auto simp: live_tuples_def copy_hosts)

lemma iterNodes_group_copy:
  "iterNodes_group nodes
     (\<lambda>node s. (True, (fst s @ [node], (snd s)\<lparr>Nodes := Nodes (snd s) @ [length (fst s)]\<rparr>)))
     (H, snap)
   = (True, (H @ nodes, snap\<lparr>Nodes := Nodes snap @ [length H..<length H + length nodes]\<rparr>))"
proof (induction nodes arbitrary: H snap)
  case Nil
  then show ?case by simp
next
  case (Cons node nodes)
  have "[length H..<length H + Suc (length nodes)] =
      length H # [Suc (length H)..<Suc (length H) + length nodes]"
    by (simp add: upt_rec)
  then show ?case using Cons.IH [of "H @ [node]"] by simp
qed

lemma deref_all_append:
  "list_all (\<lambda>p. p < length H) ps \<Longrightarrow> deref_all (H @ extra) ps = Inr (map (\<lambda>p. H ! p) ps)"
  by (induction ps) (auto simp: nth_append)

lemma group_Nodes_append:
  "pointers_ok (H, g) \<Longrightarrow> group_Nodes (H @ extra) g = Inr (map (\<lambda>e. H ! snd e) (m g))"
  using deref_all_append [of H "map snd (m g)" extra]
  by (simp add: group_Nodes_def pointers_ok_def comp_def)

lemma iterNodes_copy:
  "all_pointers_ok H ct \<Longrightarrow>
   iterNodes fst ct
     (\<lambda>node s. (True, (fst s @ [node], (snd s)\<lparr>Nodes := Nodes (snd s) @ [length (fst s)]\<rparr>)))
     (H @ extra, snap)
   = (None, (H @ extra @ live_records H ct,
        snap\<lparr>Nodes := Nodes snap @
          [length (H @ extra)..<length (H @ extra) + length (live_records H ct)]\<rparr>))"
proof (induction ct arbitrary: extra snap)
  case Nil
  then show ?case by (simp add: live_records_def)
next
  case (Cons g ct)
  let ?ns = "map (\<lambda>e. H ! snd e) (m g)"
  have g: "pointers_ok (H, g)" and ct: "all_pointers_ok H ct"
    using Cons.prems by (simp_all add: all_pointers_ok_def)
  have lr: "live_records H (g # ct) = ?ns @ live_records H ct"
    by (simp add: live_records_def)
  have up: "[length H + length extra..<length H + length extra + length (m g)] @
      [length H + length extra + length (m g)..<
         length H + length extra + length (m g) + length (live_records H ct)]
      = [length H + length extra..<
         length H + length extra + (length (m g) + length (live_records H ct))]"
    by (metis add.assoc le_add1 upt_add_eq_append)
  show ?case
    using Cons.IH [OF ct, of "extra @ ?ns"] up
    by (simp add: group_Nodes_append [OF g] iterNodes_group_copy lr add.assoc)
qed

lemma Snapshot_result:
  assumes "all_pointers_ok H (groups lrpc)"
  shows "Snapshot H lrpc =
     Inr (H @ live_records H (groups lrpc),
          \<lparr>Tuples = live_tuples (tuples lrpc),
           Nodes = [length H..<length H + length (live_records H (groups lrpc))]\<rparr>)"
proof -
  have it: "iterNodes fst (groups lrpc)
     (\<lambda>node s. (True, (fst s @ [node], (snd s)\<lparr>Nodes := Nodes (snd s) @ [length (fst s)]\<rparr>)))
     (H, snap0)
   = (None, (H @ live_records H (groups lrpc),
        snap0\<lparr>Nodes := Nodes snap0 @
          [length H..<length H + length (live_records H (groups lrpc))]\<rparr>))" for snap0
    using iterNodes_copy [OF assms, of "[]" snap0] by simp
  show ?thesis by (simp add: Snapshot_def tuples_Iter_copy it)
qed

lemma snapshot_value_fresh:
  "snapshot_value (H @ recs) \<lparr>Tuples = ts, Nodes = [length H..<length H + length recs]\<rparr>
     = (ts, recs)"
  by (auto simp: snapshot_value_def intro!: nth_equalityI simp: nth_append)

text \<open>A call on one group writes only through the pointers of the group and of the call.\<close>

lemma applyOp_frame:
  assumes "\<forall>e \<in> set (m g). snd e \<notin> S"
    and "\<forall>now node force. x = AddNode now node force \<longrightarrow> node \<notin> S"
  shows "length (fst (applyOp x (H, g))) = length H \<and>
     (\<forall>p \<in> S. fst (applyOp x (H, g)) ! p = H ! p) \<and>
     (\<forall>e \<in> set (m (snd (applyOp x (H, g)))). snd e \<notin> S)"
proof (cases x)
  case (AddNode now node force)
  then have n: "node \<notin> S" using assms(2) by simp
  show ?thesis
    using assms(1) n AddNode set_AList_update [of "Host (H ! node)" node "m g"]
    by (auto simp: addNode_def nth_list_update)
next
  case (PingNode now h c rtt)
  show ?thesis
  proof (cases "map_of (m g) h")
    case None
    then show ?thesis using assms(1) PingNode by (simp add: pingNode_def)
  next
    case (Some q)
    then have "(h, q) \<in> set (m g)" by (rule map_of_SomeD)
    then have q: "q \<notin> S" using assms(1) by auto
    show ?thesis
      using assms(1) q PingNode Some set_AList_update [of h q "m g"]
      by (auto simp: pingNode_def nth_list_update)
  qed
next
  case (RemoveNode h)
  show ?thesis
    using assms(1) RemoveNode set_AList_delete [of h "m g"]
    by (auto simp: removeNode_def split: option.splits)
qed

lemma applySys_frame:
  assumes "apart snap s" and "\<not> adds_from snap x"
  shows "apart snap (applySys x s) \<and> length (fst (applySys x s)) = length (fst s) \<and>
     (\<forall>p \<in> set (Nodes snap). fst (applySys x s) ! p = fst s ! p)"
proof (cases x)
  case (TupleInsert key host)
  then show ?thesis using assms(1) by (simp add: apart_def)
next
  case (TupleDelete key host)
  then show ?thesis using assms(1) by (simp add: apart_def)
next
  case (GroupOp i y)
  obtain H l where s: "s = (H, l)" by (cases s)
  show ?thesis
  proof (cases "i < length (groups l)")
    case False
    then show ?thesis using assms(1) GroupOp s by simp
  next
    case True
    let ?g = "groups l ! i"
    have g: "\<forall>e \<in> set (m ?g). snd e \<notin> set (Nodes snap)"
      using assms(1) True unfolding s by (auto simp: apart_def list_all_iff)
    have y: "\<forall>now node force. y = AddNode now node force \<longrightarrow> node \<notin> set (Nodes snap)"
      using assms(2) GroupOp by auto
    note fr = applyOp_frame [of ?g "set (Nodes snap)" y H, OF g y]
    have "apart snap (applySys x s)"
      using assms(1) fr True unfolding s GroupOp
      by (auto simp: apart_def list_all_iff dest!: set_update_subset_insert [THEN subsetD])
    then show ?thesis using fr True unfolding s GroupOp by simp
  qed
qed

lemma applySysAll_frame:
  "apart snap s \<Longrightarrow> list_all (\<lambda>x. \<not> adds_from snap x) xs \<Longrightarrow>
   (\<forall>p \<in> set (Nodes snap). fst (applySysAll xs s) ! p = fst s ! p)"
proof (induction xs arbitrary: s)
  case Nil
  then show ?case by simp
next
  case (Cons x xs)
  have fr: "apart snap (applySys x s)"
    "\<forall>p \<in> set (Nodes snap). fst (applySys x s) ! p = fst s ! p"
    using applySys_frame [of snap s x] Cons.prems by simp_all
  show ?case using Cons.IH [OF fr(1)] Cons.prems(2) fr(2) by simp
qed

lemma apart_fresh:
  assumes "all_pointers_ok H ct" and "groups l = ct" and "\<forall>p \<in> set (Nodes snap). length H \<le> p"
  shows "apart snap (H', l)"
  using assms
  by (fastforce simp: apart_def all_pointers_ok_def pointers_ok_def list_all_iff)

text \<open>
  Claim C8 fails when \<open>addNode\<close> is handed a node pointer of the snapshot: the call writes
  \<open>LastSeen\<close> through the pointer, so the record that the snapshot holds changes.
\<close>

theorem snapshot_addNode_counterexample:
  "Snapshot [node_A] lrpc_example = Inr ([node_A, node_A], snapshot_example) \<and>
   snd (snapshot_value [node_A, node_A] snapshot_example) = [node_A] \<and>
   snd (snapshot_value
     (fst (applySys (GroupOp 0 (AddNode 30 1 True)) ([node_A, node_A], lrpc_example)))
     snapshot_example) = [node_A\<lparr>LastSeen := 30\<rparr>]"
  by (simp add: Snapshot_def lrpc_example_def dir_example_def tuples_Insert_def hosts_of_def
      group_Nodes_def snapshot_example_def snapshot_value_def addNode_def node_A_def)

text \<open>
  Claim C8, amended. When the pointers of all groups are allocated, \<open>Snapshot\<close> returns; the
  snapshot reads as exactly the tuples of the directory and the node records of all groups
  at the time of the call, the records being fresh copies. After any sequence of inserts
  and deletes on the directory and of \<open>addNode\<close>, \<open>removeNode\<close> and \<open>pingNode\<close> calls on the
  groups, none of which hands \<open>addNode\<close> a node pointer taken from the snapshot, the
  snapshot still reads the same.
\<close>

theorem snapshot_is_a_copy:
  assumes "all_pointers_ok H (groups lrpc)"
    and "snap = \<lparr>Tuples = live_tuples (tuples lrpc),
           Nodes = [length H..<length H + length (live_records H (groups lrpc))]\<rparr>"
    and "list_all (\<lambda>x. \<not> adds_from snap x) xs"
  shows "Snapshot H lrpc = Inr (H @ live_records H (groups lrpc), snap) \<and>
     snapshot_value (H @ live_records H (groups lrpc)) snap =
       (live_tuples (tuples lrpc), live_records H (groups lrpc)) \<and>
     snapshot_value (fst (applySysAll xs (H @ live_records H (groups lrpc), lrpc))) snap =
       (live_tuples (tuples lrpc), live_records H (groups lrpc))"
proof -
  let ?H1 = "H @ live_records H (groups lrpc)"
  have a: "Snapshot H lrpc = Inr (?H1, snap)"
    using Snapshot_result [OF assms(1)] assms(2) by simp
  have b: "snapshot_value ?H1 snap = (live_tuples (tuples lrpc), live_records H (groups lrpc))"
    unfolding assms(2) by (rule snapshot_value_fresh)
  have "apart snap (?H1, lrpc)"
    using apart_fresh [OF assms(1), of lrpc snap ?H1] assms(2) by simp
  then have "\<forall>p \<in> set (Nodes snap). fst (applySysAll xs (?H1, lrpc)) ! p = ?H1 ! p"
    using applySysAll_frame [of snap "(?H1, lrpc)" xs] assms(3) by simp
  then have "snapshot_value (fst (applySysAll xs (?H1, lrpc))) snap = snapshot_value ?H1 snap"
    by (simp add: snapshot_value_def)
  then show ?thesis using a b by simp
qed

theorem snapshot_is_a_copy_witness:
  "all_pointers_ok [node_A] (groups lrpc_example) \<and>
   list_all (\<lambda>x. \<not> adds_from snapshot_example x) calls_example \<and>
   Snapshot [node_A] lrpc_example = Inr ([node_A, node_A], snapshot_example) \<and>
   snapshot_value [node_A, node_A] snapshot_example = (Tuples snapshot_example, [node_A]) \<and>
   snapshot_value (fst (applySysAll calls_example ([node_A, node_A], lrpc_example)))
     snapshot_example = (Tuples snapshot_example, [node_A])"
  using snapshot_is_a_copy [of "[node_A]" lrpc_example snapshot_example calls_example]
  by (simp add: all_pointers_ok_def pointers_ok_def lrpc_example_def snapshot_example_def
      calls_example_def live_tuples_def live_records_def dir_example_def tuples_Insert_def
      hosts_of_def)

section \<open>The partition of the keyspace\<close>

lemma keyspace_256: "0 \<le> L \<Longrightarrow> big_Exp 2 (L * 8) = 256 ^ nat L"
proof -
  assume L: "0 \<le> L"
  have n: "nat (L * 8) = 8 * nat L" using L by (simp add: nat_mult_distrib)
  have "(2::int) ^ (8 * nat L) = (2 ^ 8) ^ nat L" by (rule power_mult)
  then have "(2::int) ^ nat (L * 8) = 256 ^ nat L" using n by simp
  then show ?thesis using L by (auto simp: big_Exp_def)
qed

lemma big_Bytes_span:
  assumes "0 < N" and "0 \<le> L"
  shows "big_Bytes (int i * (big_Exp 2 (L * 8) div N)) = nat_Bytes (i * (256 ^ nat L div nat N))"
proof -
  have d: "nat ((256::int) ^ nat L div N) = 256 ^ nat L div nat N"
    by (simp add: nat_div_distrib nat_power_eq)
  have nn: "0 \<le> (256::int) ^ nat L div N"
    using assms(1) by (simp add: pos_imp_zdiv_nonneg_iff)
  have "nat \<bar>int i * (256 ^ nat L div N)\<bar> = i * nat (256 ^ nat L div N)"
    using nn by (simp add: abs_mult nat_mult_distrib)
  then show ?thesis using d by (simp add: big_Bytes_def keyspace_256 [OF assms(2)])
qed

lemma genAffinityGroups_nth:
  assumes "1 \<le> N" and "0 \<le> L"
  shows "\<exists>ct. genAffinityGroups N L = Inr ct \<and> length ct = nat N \<and>
     (\<forall>i < nat N. ct ! i =
        newAffinityGroup
          (if i = 0 then replicate (nat L) 0 else nat_Bytes (i * (256 ^ nat L div nat N)))
          (int i))"
proof -
  let ?f = "\<lambda>i. newAffinityGroup (big_Bytes (i * (big_Exp 2 (L * 8) div N))) i"
  let ?ct = "newAffinityGroup (replicate (nat L) 0) 0 # map ?f [1..N - 1]"
  have gen: "genAffinityGroups N L = Inr ?ct"
    using assms by (simp add: genAffinityGroups_def Let_def)
  have len: "length ?ct = nat N" using assms(1) by simp
  have nth: "?ct ! i =
        newAffinityGroup
          (if i = 0 then replicate (nat L) 0 else nat_Bytes (i * (256 ^ nat L div nat N)))
          (int i)" if i: "i < nat N" for i
  proof (cases i)
    case 0
    then show ?thesis by simp
  next
    case (Suc j)
    have j: "j < length [1..N - 1]" using i Suc by simp
    have "[1..N - 1] ! j = 1 + int j" using j by (intro nth_upto) simp
    then have "?ct ! i = ?f (int i)" using Suc j by simp
    then show ?thesis using Suc big_Bytes_span [of N L i] assms by simp
  qed
  show ?thesis using gen len nth by blast
qed

lemma span_bounds:
  fixes n l i :: nat
  assumes "2 \<le> n" and "n \<le> 256" and "n \<le> 256 ^ l" and "0 < i" and "i < n"
  shows "0 < l" and "256 ^ (l - 1) \<le> i * (256 ^ l div n)" and "i * (256 ^ l div n) < 256 ^ l"
    and "0 < 256 ^ l div n"
proof -
  show l: "0 < l" using assms(1,3) by (cases l) auto
  then obtain j where j: "l = Suc j" by (cases l) auto
  have "(256::nat) ^ l div 256 \<le> 256 ^ l div n"
    using assms(1,2) by (intro div_le_mono2) simp_all
  then have lo: "(256::nat) ^ (l - 1) \<le> 256 ^ l div n" using j by simp
  then show pos: "0 < 256 ^ l div n"
    by (metis less_le_trans zero_less_numeral zero_less_power)
  have "1 * (256 ^ l div n) \<le> i * (256 ^ l div n)"
    using assms(4) by (intro mult_le_mono1) simp
  then have "256 ^ l div n \<le> i * (256 ^ l div n)" by (simp only: mult_1)
  with lo show "256 ^ (l - 1) \<le> i * (256 ^ l div n)" by (rule le_trans)
  have "i * (256 ^ l div n) < n * (256 ^ l div n)"
    using assms(5) pos by simp
  also have "\<dots> \<le> 256 ^ l" by simp
  finally show "i * (256 ^ l div n) < 256 ^ l" .
qed

lemma boundary_facts:
  fixes n l i :: nat
  assumes "1 \<le> n" and "n \<le> 256" and "n \<le> 256 ^ l" and "i < n"
  shows "length (if i = 0 then replicate l 0 else nat_Bytes (i * (256 ^ l div n))) = l \<and>
     bytes_value (if i = 0 then replicate l (0::8 word) else nat_Bytes (i * (256 ^ l div n)))
       = i * (256 ^ l div n)"
proof (cases "i = 0")
  case True
  then show ?thesis by (simp add: bytes_value_zeros)
next
  case False
  then have i: "0 < i" and n: "2 \<le> n" using assms(4) by simp_all
  note sb = span_bounds [OF n assms(2,3) i assms(4)]
  have "length (nat_Bytes (i * (256 ^ l div n))) = l"
    using sb(2,3,1) by (rule length_nat_Bytes)
  then show ?thesis using False by (simp add: bytes_value_nat_Bytes)
qed

text \<open>
  The groups of a small partition. For at least one and at most 256 groups, and no more
  groups than the keyspace \<open>256 ^ hashSize\<close> has values, \<open>genAffinityGroups\<close> returns
  exactly \<open>numGroups\<close> groups; group \<open>i\<close> has index \<open>i\<close>, no members, and a boundary of \<open>hashSize\<close> bytes that
  stands for \<open>i\<close> times the span; the boundary of group 0 is all zero; and each boundary is
  below the next one in the order of \<open>bytes.Compare\<close>.
\<close>

theorem genAffinityGroups_small:
  assumes "1 \<le> N" and "N \<le> 256" and "0 \<le> L" and "N \<le> 256 ^ nat L"
  shows "\<exists>ct. genAffinityGroups N L = Inr ct \<and> length ct = nat N \<and>
     id_bytes (ct ! 0) = replicate (nat L) 0 \<and>
     (\<forall>i < nat N. index (ct ! i) = int i \<and> m (ct ! i) = [] \<and>
        length (id_bytes (ct ! i)) = nat L \<and>
        bytes_value (id_bytes (ct ! i)) = i * (256 ^ nat L div nat N)) \<and>
     (\<forall>i. Suc i < nat N \<longrightarrow>
        bytes_Compare (id_bytes (ct ! i)) (id_bytes (ct ! Suc i)) < 0)"
proof -
  let ?n = "nat N" and ?l = "nat L"
  let ?b = "\<lambda>i. if i = 0 then replicate ?l (0::8 word) else nat_Bytes (i * (256 ^ ?l div ?n))"
  obtain ct where ct: "genAffinityGroups N L = Inr ct" "length ct = ?n"
    "\<forall>i < ?n. ct ! i = newAffinityGroup (?b i) (int i)"
    using genAffinityGroups_nth [OF assms(1,3)] by blast
  have n: "1 \<le> ?n" "?n \<le> 256" "?n \<le> 256 ^ ?l"
    using assms by (simp_all add: nat_le_iff)
  have idb: "id_bytes (ct ! i) = ?b i" "index (ct ! i) = int i" "m (ct ! i) = []"
    if "i < ?n" for i
    using ct(3) that by (simp_all add: newAffinityGroup_def)
  have facts: "length (?b i) = ?l \<and> bytes_value (?b i) = i * (256 ^ ?l div ?n)"
    if "i < ?n" for i
    using boundary_facts [OF n that] .
  have z: "id_bytes (ct ! 0) = replicate ?l 0" using idb(1) [of 0] n(1) by simp
  have per: "index (ct ! i) = int i \<and> m (ct ! i) = [] \<and>
        length (id_bytes (ct ! i)) = ?l \<and>
        bytes_value (id_bytes (ct ! i)) = i * (256 ^ ?l div ?n)" if "i < ?n" for i
    using idb [OF that] facts [OF that] by simp
  have ord: "bytes_Compare (id_bytes (ct ! i)) (id_bytes (ct ! Suc i)) < 0"
    if s: "Suc i < ?n" for i
  proof -
    have i: "i < ?n" using s by simp
    have two: "2 \<le> ?n" using s by simp
    have pos: "0 < 256 ^ ?l div ?n"
      using span_bounds(4) [OF two n(2,3), of 1] two by simp
    have len: "length (id_bytes (ct ! i)) = length (id_bytes (ct ! Suc i))"
      using per [OF i] per [OF s] by simp
    have "bytes_value (id_bytes (ct ! i)) < bytes_value (id_bytes (ct ! Suc i))"
      using per [OF i] per [OF s] pos by simp
    then show ?thesis using bytes_Compare_value [OF len] by simp
  qed
  show ?thesis using ct(1,2) z per ord by blast
qed

theorem genAffinityGroups_small_example:
  "(1::int) \<le> 3 \<and> (3::int) \<le> 256 ^ nat 1 \<and>
   genAffinityGroups 3 1 =
     Inr [\<lparr>id_bytes = [0], index = 0, m = []\<rparr>, \<lparr>id_bytes = [85], index = 1, m = []\<rparr>,
          \<lparr>id_bytes = [170], index = 2, m = []\<rparr>] \<and>
   bytes_Compare [0] [85] < 0 \<and> bytes_Compare [85] [170] < 0 \<and>
   bytes_value [170] = 2 * (256 ^ 1 div 3)"
  using genAffinityGroups_small [of 3 1]
  by (simp add: genAffinityGroups_def big_Exp_def big_Bytes_def nat_Bytes.simps
      newAffinityGroup_def upto_rec1 [of 1] )

lemma get_loop_greatest:
  assumes "arr \<noteq> []" and "length arr \<le> l"
    and "\<forall>g \<in> set arr. length (id_bytes g) = length v"
    and "sorted_wrt (\<lambda>a b. bytes_value (id_bytes a) < bytes_value (id_bytes b)) arr"
    and "bytes_value (id_bytes (hd arr)) \<le> bytes_value v"
  shows "\<exists>g \<in> set arr. get_loop l arr v = Inr g \<and>
     bytes_value (id_bytes g) \<le> bytes_value v \<and>
     (\<forall>g' \<in> set arr. bytes_value (id_bytes g') \<le> bytes_value v \<longrightarrow>
        bytes_value (id_bytes g') \<le> bytes_value (id_bytes g))"
  using assms
proof (induction l arr v rule: get_loop.induct)
  case (1 l arr ident)
  let ?i = "length arr div 2"
  let ?bv = "\<lambda>g. bytes_value (id_bytes g)"
  let ?mid = "arr ! ?i"
  have i: "?i < length arr" using "1.prems"(1) by (cases arr) auto
  have il: "?i \<noteq> l" using i "1.prems"(2) by simp
  have mid: "?mid \<in> set arr" using i by simp
  have cmp: "(bytes_Compare ident (id_bytes ?mid) < 0) = (bytes_value ident < ?bv ?mid)"
    "(bytes_Compare ident (id_bytes ?mid) > 0) = (bytes_value ident > ?bv ?mid)"
    using bytes_Compare_value [of ident "id_bytes ?mid"] "1.prems"(3) mid by simp_all
  have split: "arr = take ?i arr @ drop ?i arr" by simp
  have sorted_split: "\<forall>a \<in> set (take ?i arr). \<forall>b \<in> set (drop ?i arr). ?bv a < ?bv b"
    using "1.prems"(4) split sorted_wrt_append [of _ "take ?i arr" "drop ?i arr"] by metis
  have hd_drop: "hd (drop ?i arr) = ?mid" using i by (simp add: hd_drop_conv_nth)
  have sorted_drop: "\<forall>b \<in> set (drop ?i arr). ?bv ?mid \<le> ?bv b"
  proof
    fix b assume "b \<in> set (drop ?i arr)"
    then obtain k where k: "b = arr ! (?i + k)" "?i + k < length arr"
      by (auto simp: in_set_conv_nth)
    show "?bv ?mid \<le> ?bv b"
    proof (cases k)
      case 0
      then show ?thesis using k by simp
    next
      case (Suc k')
      then have "?bv (arr ! ?i) < ?bv (arr ! (?i + k))"
        using sorted_wrt_nth_less [OF "1.prems"(4), of ?i "?i + k"] k(2) by simp
      then show ?thesis using k by simp
    qed
  qed
  have mem: "g' \<in> set (take ?i arr) \<or> g' \<in> set (drop ?i arr)" if "g' \<in> set arr" for g'
    using that split by (metis Un_iff set_append)
  show ?case
  proof (cases "?i = 0")
    case True
    then have one: "length arr = 1" using "1.prems"(1) by (cases arr; cases "tl arr") auto
    then obtain g where g: "arr = [g]" by (cases arr) auto
    then show ?thesis using True "1.prems"(5)
      by (subst get_loop.simps) (simp add: at_index_def)
  next
    case False
    note half = False
    show ?thesis
    proof (cases "bytes_Compare ident (id_bytes ?mid) < 0")
      case True
      have ne: "take ?i arr \<noteq> []" using half "1.prems"(1) by auto
      have "\<exists>g \<in> set (take ?i arr). get_loop l (take ?i arr) ident = Inr g \<and>
          ?bv g \<le> bytes_value ident \<and>
          (\<forall>g' \<in> set (take ?i arr). ?bv g' \<le> bytes_value ident \<longrightarrow> ?bv g' \<le> ?bv g)"
      proof (rule "1.IH"(1))
        show "?i \<noteq> 0 \<and> ?i \<noteq> l" using half il by simp
        show "bytes_Compare ident (id_bytes ?mid) < 0" using True .
        show "take ?i arr \<noteq> []" using ne .
        show "length (take ?i arr) \<le> l" using "1.prems"(2) by simp
        show "\<forall>g \<in> set (take ?i arr). length (id_bytes g) = length ident"
          using "1.prems"(3) by (auto dest: in_set_takeD)
        show "sorted_wrt (\<lambda>a b. ?bv a < ?bv b) (take ?i arr)"
          using "1.prems"(4) by (rule sorted_wrt_take)
        show "?bv (hd (take ?i arr)) \<le> bytes_value ident"
          using "1.prems"(5) half by (simp add: hd_take)
      qed
      then obtain g where g: "g \<in> set (take ?i arr)" "get_loop l (take ?i arr) ident = Inr g"
        "?bv g \<le> bytes_value ident"
        "\<forall>g' \<in> set (take ?i arr). ?bv g' \<le> bytes_value ident \<longrightarrow> ?bv g' \<le> ?bv g"
        by blast
      have res: "get_loop l arr ident = Inr g"
        using half il True g(2) by (subst get_loop.simps) simp
      have "?bv g' \<le> ?bv g" if "g' \<in> set arr" "?bv g' \<le> bytes_value ident" for g'
      proof -
        have "g' \<notin> set (drop ?i arr)"
          using sorted_drop that(2) True cmp(1) by fastforce
        then show ?thesis using mem [OF that(1)] g(4) that(2) by blast
      qed
      then show ?thesis using res g(1,3) by (auto dest: in_set_takeD)
    next
      case False
      note nless = False
      show ?thesis
      proof (cases "bytes_Compare ident (id_bytes ?mid) > 0")
        case True
        have "\<exists>g \<in> set (drop ?i arr). get_loop l (drop ?i arr) ident = Inr g \<and>
            ?bv g \<le> bytes_value ident \<and>
            (\<forall>g' \<in> set (drop ?i arr). ?bv g' \<le> bytes_value ident \<longrightarrow> ?bv g' \<le> ?bv g)"
        proof (rule "1.IH"(2))
          show "?i \<noteq> 0 \<and> ?i \<noteq> l" using half il by simp
          show "\<not> bytes_Compare ident (id_bytes ?mid) < 0" using nless .
          show "bytes_Compare ident (id_bytes ?mid) > 0" using True .
          show "drop ?i arr \<noteq> []" using i by simp
          show "length (drop ?i arr) \<le> l" using "1.prems"(2) by simp
          show "\<forall>g \<in> set (drop ?i arr). length (id_bytes g) = length ident"
            using "1.prems"(3) by (auto dest: in_set_dropD)
          show "sorted_wrt (\<lambda>a b. ?bv a < ?bv b) (drop ?i arr)"
            using "1.prems"(4) by (rule sorted_wrt_drop)
          show "?bv (hd (drop ?i arr)) \<le> bytes_value ident"
            using hd_drop True cmp(2) by simp
        qed
        then obtain g where g: "g \<in> set (drop ?i arr)" "get_loop l (drop ?i arr) ident = Inr g"
          "?bv g \<le> bytes_value ident"
          "\<forall>g' \<in> set (drop ?i arr). ?bv g' \<le> bytes_value ident \<longrightarrow> ?bv g' \<le> ?bv g"
          by blast
        have res: "get_loop l arr ident = Inr g"
          using half il nless True g(2) by (subst get_loop.simps) simp
        have "?bv g' \<le> ?bv g" if "g' \<in> set arr" "?bv g' \<le> bytes_value ident" for g'
        proof (cases "g' \<in> set (drop ?i arr)")
          case True
          then show ?thesis using g(4) that(2) by blast
        next
          case False
          then have "g' \<in> set (take ?i arr)" using mem [OF that(1)] by simp
          then have "?bv g' < ?bv g" using sorted_split g(1) by blast
          then show ?thesis by simp
        qed
        then show ?thesis using res g(1,3) by (auto dest: in_set_dropD)
      next
        case False
        then have eq: "?bv ?mid = bytes_value ident" using nless cmp by auto
        have res: "get_loop l arr ident = Inr ?mid"
          using half il nless False i by (subst get_loop.simps) (simp add: at_index_def)
        show ?thesis using res mid eq by auto
      qed
    qed
  qed
qed

text \<open>
  Locating in a small partition. For at least one and at most 256 groups, no more groups
  than the keyspace has values, and a hash value of \<open>hashSize\<close> bytes, \<open>get\<close> on the generated
  groups returns one of the groups; its boundary is at most the hash value, in the order of
  \<open>bytes.Compare\<close> and as a number, and no group with a boundary at most the hash value has
  a greater boundary.
\<close>

theorem locate_small:
  assumes "1 \<le> N" and "N \<le> 256" and "0 \<le> L" and "N \<le> 256 ^ nat L"
    and "length v = nat L"
  shows "\<exists>ct g. genAffinityGroups N L = Inr ct \<and> locate N L v = Inr g \<and> g \<in> set ct \<and>
     bytes_Compare (id_bytes g) v \<le> 0 \<and>
     bytes_value (id_bytes g) \<le> bytes_value v \<and>
     (\<forall>g' \<in> set ct. bytes_value (id_bytes g') \<le> bytes_value v \<longrightarrow>
        bytes_value (id_bytes g') \<le> bytes_value (id_bytes g))"
proof -
  let ?n = "nat N" and ?l = "nat L"
  let ?bv = "\<lambda>g. bytes_value (id_bytes g)"
  obtain ct where ct: "genAffinityGroups N L = Inr ct" "length ct = ?n"
    "\<forall>i < ?n. index (ct ! i) = int i \<and> m (ct ! i) = [] \<and>
        length (id_bytes (ct ! i)) = ?l \<and> ?bv (ct ! i) = i * (256 ^ ?l div ?n)"
    using genAffinityGroups_small [OF assms(1-4)] by blast
  have n: "1 \<le> ?n" "?n \<le> 256" "?n \<le> 256 ^ ?l"
    using assms by (simp_all add: nat_le_iff)
  have ne: "ct \<noteq> []" using ct(2) n(1) by auto
  have lens: "\<forall>g \<in> set ct. length (id_bytes g) = length v"
    using ct(2,3) assms(5) by (auto simp: in_set_conv_nth)
  have sorted: "sorted_wrt (\<lambda>a b. ?bv a < ?bv b) ct"
  proof -
    have "?bv (ct ! i) < ?bv (ct ! j)" if "i < j" "j < length ct" for i j
    proof -
      have two: "2 \<le> ?n" using that ct(2) by simp
      have "0 < 256 ^ ?l div ?n"
        using span_bounds(4) [OF two n(2,3), of 1] two by simp
      then show ?thesis using ct(2,3) that by simp
    qed
    then show ?thesis by (simp add: sorted_wrt_iff_nth_less)
  qed
  have first: "?bv (hd ct) \<le> bytes_value v"
    using ct(3) n(1) ne by (simp add: hd_conv_nth)
  obtain g where g: "g \<in> set ct" "get_loop (length ct) ct v = Inr g" "?bv g \<le> bytes_value v"
    "\<forall>g' \<in> set ct. ?bv g' \<le> bytes_value v \<longrightarrow> ?bv g' \<le> ?bv g"
    using get_loop_greatest [OF ne _ lens sorted first, of "length ct"] by auto
  have "length (id_bytes g) = length v" using lens g(1) by simp
  then have "bytes_Compare (id_bytes g) v \<le> 0"
    using bytes_Compare_value [of "id_bytes g" v] g(3) by (auto simp: not_less [symmetric])
  then show ?thesis using ct(1) g by (auto simp: locate_def get_def)
qed

theorem locate_small_example:
  "(1::int) \<le> 3 \<and> (3::int) \<le> 256 ^ nat 1 \<and> length [200 :: 8 word] = nat 1 \<and>
   locate 3 1 [200] = Inr \<lparr>id_bytes = [170], index = 2, m = []\<rparr> \<and>
   locate 3 1 [85] = Inr \<lparr>id_bytes = [85], index = 1, m = []\<rparr> \<and>
   locate 3 1 [84] = Inr \<lparr>id_bytes = [0], index = 0, m = []\<rparr> \<and>
   locate 1 1 [84] = Inr \<lparr>id_bytes = [0], index = 0, m = []\<rparr>"
  using locate_small [of 3 1 "[200]"]
  by (simp add: locate_def genAffinityGroups_def big_Exp_def big_Bytes_def nat_Bytes.simps
      newAffinityGroup_def upto_rec1 [of 1] get_def get_loop.simps at_index_def)

subsection \<open>Boundaries that lose their leading zero bytes\<close>

lemma boundary_eq:
  assumes "1 \<le> N" and "0 \<le> L" and "i < nat N"
  shows "boundary N L i =
     Inr (if i = 0 then replicate (nat L) 0 else nat_Bytes (i * (256 ^ nat L div nat N)))"
proof -
  obtain ct where ct: "genAffinityGroups N L = Inr ct" "length ct = nat N"
    "\<forall>i < nat N. ct ! i =
        newAffinityGroup
          (if i = 0 then replicate (nat L) 0 else nat_Bytes (i * (256 ^ nat L div nat N)))
          (int i)"
    using genAffinityGroups_nth [OF assms(1,2)] by blast
  show ?thesis using ct assms(3)
    by (simp add: boundary_def at_index_def newAffinityGroup_def)
qed

lemma get_loop_left:
  assumes "k \<le> length ct" and "2 \<le> k" and "k div 2 \<noteq> l"
    and "bytes_Compare v (id_bytes (ct ! (k div 2))) < 0"
  shows "get_loop l (take k ct) v = get_loop l (take (k div 2) ct) v"
proof -
  have "length (take k ct) div 2 = k div 2" using assms(1) by simp
  moreover have "take k ct ! (k div 2) = ct ! (k div 2)" using assms(2) by simp
  moreover have "take (k div 2) (take k ct) = take (k div 2) ct" by (simp add: min_def)
  moreover have "k div 2 \<noteq> 0" using assms(2) by simp
  ultimately show ?thesis using assms(3,4)
    by (subst get_loop.simps) simp
qed

lemma get_loop_one: "ct \<noteq> [] \<Longrightarrow> get_loop l (take 1 ct) v = Inr (ct ! 0)"
  by (subst get_loop.simps) (cases ct; simp add: at_index_def)

lemma nat_Bytes_unique: "bs = [] \<or> hd bs \<noteq> 0 \<Longrightarrow> nat_Bytes (bytes_value bs) = bs"
proof (induction bs rule: rev_induct)
  case Nil
  then show ?case by (simp add: nat_Bytes.simps)
next
  case (snoc b xs)
  have b: "unat b < 256" using unsigned_less [of b, where 'a = nat] by simp
  show ?case
  proof (cases "xs = []")
    case True
    then have "b \<noteq> 0" using snoc.prems by simp
    then have "unat b \<noteq> 0" by (simp add: unat_eq_0)
    then show ?thesis using True b
      by (subst nat_Bytes.simps) (simp add: nat_Bytes.simps [of 0])
  next
    case False
    then have ih: "nat_Bytes (bytes_value xs) = xs" using snoc by simp
    have "bytes_value xs \<noteq> 0"
    proof
      assume "bytes_value xs = 0"
      then have "nat_Bytes (bytes_value xs) = []" by (simp add: nat_Bytes.simps)
      then show False using ih False by simp
    qed
    then show ?thesis using ih b
      by (subst nat_Bytes.simps) (simp add: bytes_value_snoc)
  qed
qed

lemma nat_Bytes_hd:
  "0 < x \<Longrightarrow> \<exists>bs. nat_Bytes x = word_of_nat (x div 256 ^ (length (nat_Bytes x) - 1)) # bs"
proof (induction x rule: nat_Bytes.induct)
  case (1 n)
  then have n: "n \<noteq> 0" by simp
  have unfold: "nat_Bytes n = nat_Bytes (n div 256) @ [word_of_nat (n mod 256)]"
    using n by (subst nat_Bytes.simps) simp
  show ?case
  proof (cases "n div 256 = 0")
    case True
    then have "nat_Bytes (n div 256) = []" by (simp add: nat_Bytes.simps)
    moreover have "n mod 256 = n" using True by (simp add: div_eq_0_iff)
    ultimately show ?thesis using unfold by simp
  next
    case False
    then obtain bs where bs: "nat_Bytes (n div 256) =
        word_of_nat (n div 256 div 256 ^ (length (nat_Bytes (n div 256)) - 1)) # bs"
      using "1.IH" [OF n] by auto
    then obtain j where j: "length (nat_Bytes (n div 256)) = Suc j"
      by (cases "length (nat_Bytes (n div 256))") auto
    have "n div 256 div 256 ^ j = n div 256 ^ Suc j"
      by (simp add: div_mult2_eq)
    then show ?thesis using unfold bs j by simp
  qed
qed

lemma bytes_Compare_nat_Bytes:
  assumes "length v = k" and "0 < k" and "256 ^ (k - 1) \<le> x" and "x < 256 ^ k"
    and "bytes_value v < x"
  shows "bytes_Compare v (nat_Bytes x) < 0"
proof -
  have "length v = length (nat_Bytes x)"
    using length_nat_Bytes [OF assms(3,4,2)] assms(1) by simp
  then show ?thesis
    using bytes_Compare_value [of v "nat_Bytes x"] assms(5) by (simp add: bytes_value_nat_Bytes)
qed

lemma bytes_Compare_shorter:
  assumes "0 < k" and "256 ^ (k - 1) \<le> x" and "x < 256 ^ k"
    and "a < (word_of_nat (x div 256 ^ (k - 1)) :: 8 word)"
  shows "bytes_Compare (a # v) (nat_Bytes x) < 0"
proof -
  have len: "length (nat_Bytes x) = k" using assms(2,3,1) by (rule length_nat_Bytes)
  have "0 < x" using assms(2) by (metis less_le_trans zero_less_numeral zero_less_power)
  then obtain bs where "nat_Bytes x = word_of_nat (x div 256 ^ (k - 1)) # bs"
    using nat_Bytes_hd [of x] len by auto
  then show ?thesis using assms(4) by simp
qed

lemma digest_value: "bytes_value digest_example = 256 ^ 31 + 100 * 256 ^ 30"
  by (simp add: digest_example_def bytes_value_zeros)

text \<open>The span of 384 groups over 32-byte digests.\<close>

lemma span_384:
  "(256::nat) ^ 32 div 384 =
     301541899055510925582216106793458093367890585066772302186087458353940441770"
  by simp

lemma digest_below:
    "bytes_Compare digest_example (nat_Bytes (192 * 301541899055510925582216106793458093367890585066772302186087458353940441770)) < 0"
    "bytes_Compare digest_example (nat_Bytes (96 * 301541899055510925582216106793458093367890585066772302186087458353940441770)) < 0"
    "bytes_Compare digest_example (nat_Bytes (48 * 301541899055510925582216106793458093367890585066772302186087458353940441770)) < 0"
    "bytes_Compare digest_example (nat_Bytes (24 * 301541899055510925582216106793458093367890585066772302186087458353940441770)) < 0"
    "bytes_Compare digest_example (nat_Bytes (12 * 301541899055510925582216106793458093367890585066772302186087458353940441770)) < 0"
    "bytes_Compare digest_example (nat_Bytes (6 * 301541899055510925582216106793458093367890585066772302186087458353940441770)) < 0"
    "bytes_Compare digest_example (nat_Bytes (3 * 301541899055510925582216106793458093367890585066772302186087458353940441770)) < 0"
  by (rule bytes_Compare_nat_Bytes [where k = 32], simp add: digest_example_def,
      simp_all add: digest_value)+

lemma digest_below_short:
  "bytes_Compare digest_example (nat_Bytes (1 * 301541899055510925582216106793458093367890585066772302186087458353940441770)) < 0"
  unfolding digest_example_def
  by (rule bytes_Compare_shorter [where k = 31]) simp_all

lemma boundaries_384:
  "nat_Bytes (1 * 301541899055510925582216106793458093367890585066772302186087458353940441770) =
      [170, 170, 170, 170, 170, 170, 170, 170, 170, 170, 170, 170, 170, 170, 170, 170,
      170, 170, 170, 170, 170, 170, 170, 170, 170, 170, 170, 170, 170, 170, 170]"
  "nat_Bytes (2 * 301541899055510925582216106793458093367890585066772302186087458353940441770) =
      [1, 85, 85, 85, 85, 85, 85, 85, 85, 85, 85, 85, 85, 85, 85, 85, 85, 85, 85, 85,
      85, 85, 85, 85, 85, 85, 85, 85, 85, 85, 85, 84]"
  "nat_Bytes (3 * 301541899055510925582216106793458093367890585066772302186087458353940441770) =
      [1, 255, 255, 255, 255, 255, 255, 255, 255, 255, 255, 255, 255, 255, 255, 255,
      255, 255, 255, 255, 255, 255, 255, 255, 255, 255, 255, 255, 255, 255, 255, 254]"
  using nat_Bytes_unique [of "[170, 170, 170, 170, 170, 170, 170, 170, 170, 170, 170, 170, 170, 170, 170, 170,
      170, 170, 170, 170, 170, 170, 170, 170, 170, 170, 170, 170, 170, 170, 170]"]
    nat_Bytes_unique [of "[1, 85, 85, 85, 85, 85, 85, 85, 85, 85, 85, 85, 85, 85, 85, 85, 85, 85, 85, 85,
      85, 85, 85, 85, 85, 85, 85, 85, 85, 85, 85, 84]"]
    nat_Bytes_unique [of "[1, 255, 255, 255, 255, 255, 255, 255, 255, 255, 255, 255, 255, 255, 255, 255,
      255, 255, 255, 255, 255, 255, 255, 255, 255, 255, 255, 255, 255, 255, 255, 254]"]
  by simp_all

text \<open>
  Claim C1 at 384 groups and the 32-byte digests of the default hash. The digest that begins
  with the bytes 1 and 100 lies between the boundaries of groups 2 and 3, in the order of
  \<open>bytes.Compare\<close> and as numbers, but \<open>get\<close> returns group 0: the boundary of group 1 has
  only 31 bytes and begins with 170, so the search takes the digest to be below it.
\<close>

theorem locate_wrong_group:
  "locate 384 32 digest_example = Inr \<lparr>id_bytes = replicate 32 0, index = 0, m = []\<rparr> \<and>
   length digest_example = 32 \<and>
   boundary 384 32 1 =
     Inr [170, 170, 170, 170, 170, 170, 170, 170, 170, 170, 170, 170, 170, 170, 170, 170,
      170, 170, 170, 170, 170, 170, 170, 170, 170, 170, 170, 170, 170, 170, 170] \<and>
   boundary 384 32 2 =
     Inr [1, 85, 85, 85, 85, 85, 85, 85, 85, 85, 85, 85, 85, 85, 85, 85, 85, 85, 85, 85,
      85, 85, 85, 85, 85, 85, 85, 85, 85, 85, 85, 84] \<and>
   boundary 384 32 3 =
     Inr [1, 255, 255, 255, 255, 255, 255, 255, 255, 255, 255, 255, 255, 255, 255, 255,
      255, 255, 255, 255, 255, 255, 255, 255, 255, 255, 255, 255, 255, 255, 255, 254] \<and>
   bytes_Compare
     [1, 85, 85, 85, 85, 85, 85, 85, 85, 85, 85, 85, 85, 85, 85, 85, 85, 85, 85, 85,
      85, 85, 85, 85, 85, 85, 85, 85, 85, 85, 85, 84]
     digest_example < 0 \<and>
   bytes_Compare digest_example
     [1, 255, 255, 255, 255, 255, 255, 255, 255, 255, 255, 255, 255, 255, 255, 255,
      255, 255, 255, 255, 255, 255, 255, 255, 255, 255, 255, 255, 255, 255, 255, 254] < 0 \<and>
   bytes_value
     [1, 85, 85, 85, 85, 85, 85, 85, 85, 85, 85, 85, 85, 85, 85, 85, 85, 85, 85, 85,
      85, 85, 85, 85, 85, 85, 85, 85, 85, 85, 85, 84]
     < bytes_value digest_example \<and>
   bytes_value digest_example < bytes_value
     [1, 255, 255, 255, 255, 255, 255, 255, 255, 255, 255, 255, 255, 255, 255, 255,
      255, 255, 255, 255, 255, 255, 255, 255, 255, 255, 255, 255, 255, 255, 255, 254]"
proof -
  obtain ct where ct: "genAffinityGroups 384 32 = Inr ct" "length ct = nat 384"
    "\<forall>i < nat 384. ct ! i =
        newAffinityGroup
          (if i = 0 then replicate (nat 32) 0 else nat_Bytes (i * (256 ^ nat 32 div nat 384)))
          (int i)"
    using genAffinityGroups_nth [of 384 32] by auto
  have len: "length ct = 384" using ct(2) by simp
  have idb: "id_bytes (ct ! j) =
      nat_Bytes (j * 301541899055510925582216106793458093367890585066772302186087458353940441770)"
    if "j < 384" "j \<noteq> 0" for j :: nat
    using ct(3) that by (simp add: newAffinityGroup_def)
  have first: "ct ! 0 = \<lparr>id_bytes = replicate 32 0, index = 0, m = []\<rparr>"
    using ct(3) by (simp add: newAffinityGroup_def)
  have below: "bytes_Compare digest_example (id_bytes (ct ! 192)) < 0"
    "bytes_Compare digest_example (id_bytes (ct ! 96)) < 0"
    "bytes_Compare digest_example (id_bytes (ct ! 48)) < 0"
    "bytes_Compare digest_example (id_bytes (ct ! 24)) < 0"
    "bytes_Compare digest_example (id_bytes (ct ! 12)) < 0"
    "bytes_Compare digest_example (id_bytes (ct ! 6)) < 0"
    "bytes_Compare digest_example (id_bytes (ct ! 3)) < 0"
    "bytes_Compare digest_example (id_bytes (ct ! 1)) < 0"
    using digest_below digest_below_short by (simp_all add: idb)
  have "get ct digest_example = get_loop 384 (take 384 ct) digest_example"
    using len by (simp add: get_def)
  also have "\<dots> = get_loop 384 (take 192 ct) digest_example"
    using get_loop_left [of 384 ct 384 digest_example] below(1) len by simp
  also have "\<dots> = get_loop 384 (take 96 ct) digest_example"
    using get_loop_left [of 192 ct 384 digest_example] below(2) len by simp
  also have "\<dots> = get_loop 384 (take 48 ct) digest_example"
    using get_loop_left [of 96 ct 384 digest_example] below(3) len by simp
  also have "\<dots> = get_loop 384 (take 24 ct) digest_example"
    using get_loop_left [of 48 ct 384 digest_example] below(4) len by simp
  also have "\<dots> = get_loop 384 (take 12 ct) digest_example"
    using get_loop_left [of 24 ct 384 digest_example] below(5) len by simp
  also have "\<dots> = get_loop 384 (take 6 ct) digest_example"
    using get_loop_left [of 12 ct 384 digest_example] below(6) len by simp
  also have "\<dots> = get_loop 384 (take 3 ct) digest_example"
    using get_loop_left [of 6 ct 384 digest_example] below(7) len by simp
  also have "\<dots> = get_loop 384 (take 1 ct) digest_example"
    using get_loop_left [of 3 ct 384 digest_example] below(8) len by simp
  also have "\<dots> = Inr (ct ! 0)"
    using get_loop_one [of ct 384 digest_example] len by (cases ct) auto
  finally have "get ct digest_example = Inr (ct ! 0)" .
  then have loc: "locate 384 32 digest_example =
      Inr \<lparr>id_bytes = replicate 32 0, index = 0, m = []\<rparr>"
    using ct(1) first by (simp add: locate_def)
  have bd: "boundary 384 32 i =
      Inr (nat_Bytes (i * 301541899055510925582216106793458093367890585066772302186087458353940441770))"
    if "i < 384" "i \<noteq> 0" for i :: nat
    using that by (simp add: boundary_eq)
  have b: "boundary 384 32 1 =
     Inr [170, 170, 170, 170, 170, 170, 170, 170, 170, 170, 170, 170, 170, 170, 170, 170,
      170, 170, 170, 170, 170, 170, 170, 170, 170, 170, 170, 170, 170, 170, 170]"
    "boundary 384 32 2 =
     Inr [1, 85, 85, 85, 85, 85, 85, 85, 85, 85, 85, 85, 85, 85, 85, 85, 85, 85, 85, 85,
      85, 85, 85, 85, 85, 85, 85, 85, 85, 85, 85, 84]"
    "boundary 384 32 3 =
     Inr [1, 255, 255, 255, 255, 255, 255, 255, 255, 255, 255, 255, 255, 255, 255, 255,
      255, 255, 255, 255, 255, 255, 255, 255, 255, 255, 255, 255, 255, 255, 255, 254]"
    using bd [of 1] bd [of 2] bd [of 3] boundaries_384 by simp_all
  have c: "bytes_Compare
     [1, 85, 85, 85, 85, 85, 85, 85, 85, 85, 85, 85, 85, 85, 85, 85, 85, 85, 85, 85,
      85, 85, 85, 85, 85, 85, 85, 85, 85, 85, 85, 84]
     digest_example < 0"
    "bytes_Compare digest_example
     [1, 255, 255, 255, 255, 255, 255, 255, 255, 255, 255, 255, 255, 255, 255, 255,
      255, 255, 255, 255, 255, 255, 255, 255, 255, 255, 255, 255, 255, 255, 255, 254] < 0"
    by (simp_all add: digest_example_def)
  have d: "bytes_value
     [1, 85, 85, 85, 85, 85, 85, 85, 85, 85, 85, 85, 85, 85, 85, 85, 85, 85, 85, 85,
      85, 85, 85, 85, 85, 85, 85, 85, 85, 85, 85, 84]
     < bytes_value digest_example"
    "bytes_value digest_example < bytes_value
     [1, 255, 255, 255, 255, 255, 255, 255, 255, 255, 255, 255, 255, 255, 255, 255,
      255, 255, 255, 255, 255, 255, 255, 255, 255, 255, 255, 255, 255, 255, 255, 254]"
    "length digest_example = 32"
    by (simp_all add: digest_example_def bytes_value_zeros)
  show ?thesis by (intro conjI loc b c d)
qed

text \<open>
  Claim C2 at 257 groups and a hash of 32 bytes: the boundary of group 1 has 31 bytes, and in
  the order of \<open>bytes.Compare\<close> it is above the boundary of group 2.
\<close>

theorem boundary_too_short:
  "boundary 257 32 1 =
     Inr [255, 0, 255, 0, 255, 0, 255, 0, 255, 0, 255, 0, 255, 0, 255, 0, 255, 0, 255, 0,
      255, 0, 255, 0, 255, 0, 255, 0, 255, 0, 255] \<and>
   length
     [255, 0, 255, 0, 255, 0, 255, 0, 255, 0, 255, 0, 255, 0, 255, 0, 255, 0, 255, 0,
      255, 0, 255, 0, 255, 0, 255, 0, 255, 0, 255] = 31 \<and>
   boundary 257 32 2 =
     Inr [1, 254, 1, 254, 1, 254, 1, 254, 1, 254, 1, 254, 1, 254, 1, 254, 1, 254, 1, 254,
      1, 254, 1, 254, 1, 254, 1, 254, 1, 254, 1, 254] \<and>
   bytes_Compare
     [255, 0, 255, 0, 255, 0, 255, 0, 255, 0, 255, 0, 255, 0, 255, 0, 255, 0, 255, 0,
      255, 0, 255, 0, 255, 0, 255, 0, 255, 0, 255]
     [1, 254, 1, 254, 1, 254, 1, 254, 1, 254, 1, 254, 1, 254, 1, 254, 1, 254, 1, 254,
      1, 254, 1, 254, 1, 254, 1, 254, 1, 254, 1, 254] = 1"
  by (simp add: boundary_eq nat_Bytes.simps)

end
